theory Spec2Isabelle
  imports Complex_Main
begin

section \<open>The gallery page: data model\<close>

text \<open>
  The page (\<^verbatim>\<open>src/app/gallery/page.tsx\<close>) keeps a list of pending files, uploads them
  one after the other on save, and lets the user drag and resize each preview.

  JavaScript numbers are modelled by \<open>jsnum\<close>: a finite value (a real: the rounding of
  IEEE doubles is not modelled), the two infinities and NaN.
\<close>

datatype jsnum = Fin real | PosInf | NegInf | NaN

text \<open>A \<^verbatim>\<open>File\<close> of the picker: its name, its MIME type, and the dimensions the
  browser decodes from it (\<open>None\<close> when the image does not load).\<close>

record jsfile =
  fname :: string
  ftype :: string
  image :: "(nat \<times> nat) option"

text \<open>\<^verbatim>\<open>type PendingFile = { file; previewUrl; x; y; w; h; caption? }\<close>.
  An object URL is identified by the number of the \<^verbatim>\<open>URL.createObjectURL\<close> call that
  made it. The positions \<open>x\<close>, \<open>y\<close> are JavaScript numbers; the sizes \<open>w\<close>, \<open>h\<close> only ever hold
  \<open>260\<close>, a \<^verbatim>\<open>Math.round\<close> or an element's \<^verbatim>\<open>clientWidth\<close>/\<^verbatim>\<open>clientHeight\<close>, which
  are integers.\<close>

record PendingFile =
  pfile :: jsfile
  previewUrl :: nat
  px :: jsnum
  py :: jsnum
  pw :: int
  ph :: int
  caption :: "string option"

text \<open>The argument of \<^verbatim>\<open>onChange\<close>: \<^verbatim>\<open>{ x; y; w; h }\<close>.\<close>

record layout =
  lx :: jsnum
  ly :: jsnum
  lw :: int
  lh :: int

text \<open>The fields \<^verbatim>\<open>addDoc\<close> writes. \<^verbatim>\<open>createdAt\<close> is the sentinel
  \<^verbatim>\<open>serverTimestamp()\<close>; the order of creation is the order of the list of documents.\<close>

datatype timestamp = ServerTimestamp

record GalleryItem =
  url :: string
  fileName :: string
  ix :: jsnum
  iy :: jsnum
  iw :: int
  ih :: int
  icaption :: "string option"
  createdAt :: timestamp

subsection \<open>The remote services\<close>

text \<open>
  Object storage and the document store are external. Their state is the list of uploaded
  objects, the list of documents of \<^verbatim>\<open>galleries/default/items\<close>, and the log of every
  call made, in order. What a call answers is not decided by the page: each iteration of the
  save loop gets an \<open>io\<close> that says what \<^verbatim>\<open>Date.now()\<close> returns and whether
  \<^verbatim>\<open>uploadBytes\<close>, \<^verbatim>\<open>getDownloadURL\<close> and \<^verbatim>\<open>addDoc\<close> resolve or throw.
\<close>

datatype call = UploadBytes string | GetDownloadURL string | AddDoc GalleryItem

record remote =
  objects :: "(string \<times> jsfile) list"
  docs :: "GalleryItem list"
  calls :: "call list"

datatype error = UploadFailed | DownloadURLFailed | WriteFailed

record io =
  now :: nat
  upload_ok :: bool
  download_url :: "string option"
  write_ok :: bool

definition uploadBytes :: "io \<Rightarrow> string \<Rightarrow> jsfile \<Rightarrow> remote \<Rightarrow> error option \<times> remote" where
  "uploadBytes e k f r =
     (let r' = r\<lparr>calls := calls r @ [UploadBytes k]\<rparr>
      in if upload_ok e then (None, r'\<lparr>objects := objects r' @ [(k, f)]\<rparr>)
         else (Some UploadFailed, r'))"

definition getDownloadURL :: "io \<Rightarrow> string \<Rightarrow> remote \<Rightarrow> (error + string) \<times> remote" where
  "getDownloadURL e k r =
     (let r' = r\<lparr>calls := calls r @ [GetDownloadURL k]\<rparr>
      in case download_url e of
           None \<Rightarrow> (Inl DownloadURLFailed, r')
         | Some u \<Rightarrow> (Inr u, r'))"

definition addDoc :: "io \<Rightarrow> GalleryItem \<Rightarrow> remote \<Rightarrow> error option \<times> remote" where
  "addDoc e d r =
     (let r' = r\<lparr>calls := calls r @ [AddDoc d]\<rparr>
      in if write_ok e then (None, r'\<lparr>docs := docs r' @ [d]\<rparr>)
         else (Some WriteFailed, r'))"

subsection \<open>The page's state\<close>

text \<open>
  The React state of \<^verbatim>\<open>GalleryPage\<close> (\<open>pending\<close>, \<open>isSaving\<close>, \<open>snap\<close>), the browser's
  object URLs (the number of URLs created so far and the log of
  \<^verbatim>\<open>URL.revokeObjectURL\<close> calls), and the remote services.
\<close>

record state =
  pending :: "PendingFile list"
  isSaving :: bool
  snap :: bool
  created :: nat
  revoked :: "nat list"
  store :: remote

definition init_remote :: remote where
  "init_remote = \<lparr>objects = [], docs = [], calls = []\<rparr>"

definition init_state :: state where
  "init_state = \<lparr>pending = [], isSaving = False, snap = True, created = 0, revoked = [],
     store = init_remote\<rparr>"

section \<open>The save pipeline\<close>

text \<open>Decimal digits of a number, as a template literal prints \<^verbatim>\<open>Date.now()\<close>.\<close>

definition digit :: "nat \<Rightarrow> char" where
  "digit d = char_of (d + 48)"

fun decimal :: "nat \<Rightarrow> string" where
  "decimal n = (if n < 10 then [digit n] else decimal (n div 10) @ [digit (n mod 10)])"

declare decimal.simps [simp del]

definition storage_key :: "nat \<Rightarrow> jsfile \<Rightarrow> string" where
  "storage_key t f = ''galleries/default/'' @ decimal t @ ''_'' @ fname f"

definition item_doc :: "string \<Rightarrow> PendingFile \<Rightarrow> GalleryItem" where
  "item_doc u p = \<lparr>url = u, fileName = fname (pfile p), ix = px p, iy = py p, iw = pw p,
     ih = ph p, icaption = caption p, createdAt = ServerTimestamp\<rparr>"

text \<open>One iteration of \<^verbatim>\<open>for (const p of pending)\<close>: upload, resolve the URL, write the
  document. The first call that throws ends the iteration with its error.\<close>

definition save_item :: "io \<Rightarrow> PendingFile \<Rightarrow> remote \<Rightarrow> error option \<times> remote" where
  "save_item e p r =
     (let k = storage_key (now e) (pfile p)
      in case uploadBytes e k (pfile p) r of
           (Some err, r1) \<Rightarrow> (Some err, r1)
         | (None, r1) \<Rightarrow>
             (case getDownloadURL e k r1 of
                (Inl err, r2) \<Rightarrow> (Some err, r2)
              | (Inr u, r2) \<Rightarrow> addDoc e (item_doc u p) r2))"

text \<open>The loop: iteration \<open>i\<close> runs with \<open>env i\<close>; an error leaves the loop at once.\<close>

fun save_loop :: "(nat \<Rightarrow> io) \<Rightarrow> nat \<Rightarrow> PendingFile list \<Rightarrow> remote \<Rightarrow> error option \<times> remote" where
  "save_loop env i [] r = (None, r)"
| "save_loop env i (p # ps) r =
     (case save_item (env i) p r of
        (Some err, r') \<Rightarrow> (Some err, r')
      | (None, r') \<Rightarrow> save_loop env (Suc i) ps r')"

definition revokeAll :: "PendingFile list \<Rightarrow> state \<Rightarrow> state" where
  "revokeAll ps s = s\<lparr>revoked := revoked s @ map previewUrl ps\<rparr>"

text \<open>The end of \<^verbatim>\<open>onSave\<close> when the loop went through: revoke the previews of the list
  the handler closed over, clear the pending list, and the \<^verbatim>\<open>finally\<close>.\<close>

definition onSave_finish :: "PendingFile list \<Rightarrow> state \<Rightarrow> state" where
  "onSave_finish ps s = (revokeAll ps s)\<lparr>pending := [], isSaving := False\<rparr>"

text \<open>The end of \<^verbatim>\<open>onSave\<close> when a call threw: only the \<^verbatim>\<open>finally\<close> runs.\<close>

definition onSave_abort :: "state \<Rightarrow> state" where
  "onSave_abort s = s\<lparr>isSaving := False\<rparr>"

text \<open>
  \<^verbatim>\<open>onSave\<close>, run with no other event in between. The result is the error the returned
  promise is rejected with, if any.
\<close>

definition onSave :: "(nat \<Rightarrow> io) \<Rightarrow> state \<Rightarrow> error option \<times> state" where
  "onSave env s =
     (if pending s = [] then (None, s)
      else
        let s1 = s\<lparr>isSaving := True\<rparr>
        in case save_loop env 0 (pending s) (store s1) of
             (Some err, r') \<Rightarrow> (Some err, onSave_abort (s1\<lparr>store := r'\<rparr>))
           | (None, r') \<Rightarrow> (None, onSave_finish (pending s) (s1\<lparr>store := r'\<rparr>)))"

definition canSave :: "state \<Rightarrow> bool" where
  "canSave s = (pending s \<noteq> [] \<and> \<not> isSaving s)"

text \<open>The save button: \<^verbatim>\<open>disabled={!canSave}\<close>, and its label
  \<^verbatim>\<open>isSaving ? "Saving..." : `Save${pending.length ? ` (${pending.length})` : ""}`\<close>
  (the source's ellipsis is one character, three bytes in UTF-8).\<close>

definition button_disabled :: "state \<Rightarrow> bool" where
  "button_disabled s = (\<not> canSave s)"

definition save_label :: "state \<Rightarrow> string" where
  "save_label s =
     (if isSaving s then ''Saving'' @ [char_of (226::nat), char_of (128::nat), char_of (166::nat)]
      else ''Save'' @
        (if pending s \<noteq> [] then '' ('' @ decimal (length (pending s)) @ '')'' else []))"

section \<open>Selecting and removing files\<close>

definition createObjectURL :: "state \<Rightarrow> nat \<times> state" where
  "createObjectURL s = (created s, s\<lparr>created := Suc (created s)\<rparr>)"

text \<open>\<^verbatim>\<open>readImageDims\<close> makes an object URL of its own for the \<^verbatim>\<open>Image\<close> it loads, and
  resolves with the dimensions, or with \<^verbatim>\<open>null\<close> on error. Nothing revokes that URL.\<close>

definition readImageDims :: "jsfile \<Rightarrow> state \<Rightarrow> (nat \<times> nat) option \<times> state" where
  "readImageDims f s = (case createObjectURL s of (u, s') \<Rightarrow> (image f, s'))"

definition baseW :: int where
  "baseW = 260"

text \<open>\<^verbatim>\<open>dims && dims.w > 0 ? Math.max(0.3, dims.h / dims.w) : 0.66\<close>, in exact
  arithmetic. An image's \<^verbatim>\<open>width\<close> and \<^verbatim>\<open>height\<close> are non-negative integers.\<close>

definition ratio :: "(nat \<times> nat) option \<Rightarrow> real" where
  "ratio d =
     (case d of
        None \<Rightarrow> 0.66
      | Some (dw, dh) \<Rightarrow> if dw > 0 then max 0.3 (real dh / real dw) else 0.66)"

text \<open>\<^verbatim>\<open>Math.max(160, Math.round(baseW * ratio))\<close>; \<^verbatim>\<open>Math.round\<close> rounds a half up, as
  \<open>round\<close> does.\<close>

definition baseH :: "(nat \<times> nat) option \<Rightarrow> int" where
  "baseH d = max 160 (round (real_of_int baseW * ratio d))"

text \<open>The loop of \<^verbatim>\<open>onSelect\<close>. \<open>m\<close> is \<^verbatim>\<open>pending.length\<close> of the list the handler
  closed over; \<open>entries\<close> is the array built so far.\<close>

fun select_loop :: "nat \<Rightarrow> jsfile list \<Rightarrow> PendingFile list \<Rightarrow> state \<Rightarrow> PendingFile list \<times> state" where
  "select_loop m [] entries s = (entries, s)"
| "select_loop m (f # fs) entries s =
     (case createObjectURL s of (u, s1) \<Rightarrow>
        (case readImageDims f s1 of (d, s2) \<Rightarrow>
           (let n = m + length entries
            in select_loop m fs
                 (entries @ [\<lparr>pfile = f, previewUrl = u, px = Fin (16 * real n),
                    py = Fin (16 * real n), pw = baseW, ph = baseH d, caption = None\<rparr>])
                 s2)))"

text \<open>\<^verbatim>\<open>onSelect\<close>: \<open>captured\<close> is the \<^verbatim>\<open>pending\<close> of the render the handler belongs to;
  the new entries are appended to the state's list by the updater
  \<^verbatim>\<open>prev => [...prev, ...entries]\<close>.\<close>

definition onSelect :: "PendingFile list \<Rightarrow> jsfile list \<Rightarrow> state \<Rightarrow> state" where
  "onSelect captured files s =
     (if files = [] then s
      else case select_loop (length captured) files [] s of
             (entries, s') \<Rightarrow> s'\<lparr>pending := pending s' @ entries\<rparr>)"

text \<open>\<^verbatim>\<open>removeOne\<close>: \<^verbatim>\<open>splice(idx, 1)\<close> removes nothing past the end of the list.\<close>

definition removeOne :: "nat \<Rightarrow> state \<Rightarrow> state" where
  "removeOne idx s =
     (if idx < length (pending s)
      then s\<lparr>revoked := revoked s @ [previewUrl (pending s ! idx)],
             pending := take idx (pending s) @ drop (Suc idx) (pending s)\<rparr>
      else s)"

text \<open>
  The \<^verbatim>\<open>onChange\<close> the page passes to item \<open>idx\<close>:
  \<^verbatim>\<open>copy[idx] = { ...copy[idx], ...next }\<close>. Past the end of the list the source would
  extend the array with an entry that has no file; no state of this model describes that,
  and the result is \<open>None\<close>.
\<close>

definition onChange :: "nat \<Rightarrow> layout \<Rightarrow> state \<Rightarrow> state option" where
  "onChange idx next s =
     (if idx < length (pending s)
      then Some (s\<lparr>pending := (pending s)[idx :=
             (pending s ! idx)\<lparr>px := lx next, py := ly next, pw := lw next, ph := lh next\<rparr>]\<rparr>)
      else None)"

text \<open>
  The cleanup of the effect \<^verbatim>\<open>useEffect(() => { return () => pending.forEach(...) }, [])\<close>.
  Its dependency list is empty: the effect runs once, after the first render, and the
  cleanup it returns closes over the \<^verbatim>\<open>pending\<close> of that render, which is the initial state
  of \<^verbatim>\<open>useState<PendingFile[]>([])\<close>. Every later list is a new array.
\<close>

definition cleanup_closure :: "PendingFile list" where
  "cleanup_closure = pending init_state"

definition unmount :: "state \<Rightarrow> state" where
  "unmount s = revokeAll cleanup_closure s"

text \<open>The object URLs of the pending previews that are created and not revoked.\<close>

definition live_previews :: "state \<Rightarrow> nat list" where
  "live_previews s = filter (\<lambda>u. u \<notin> set (revoked s)) (map previewUrl (pending s))"

section \<open>The page as a system of events\<close>

text \<open>
  Between two \<^verbatim>\<open>await\<close>s of a running \<^verbatim>\<open>onSave\<close> the page handles other events. A running
  save is its closed-over list and the items its loop has yet to process. One
  \<open>SaveProgress k e\<close> is the completion of the calls of the next item of the \<open>k\<close>-th running
  save, answered as \<open>e\<close> says. A click on a disabled button is not delivered, and no gesture
  ends on an item that is not rendered.
\<close>

record save_task =
  closure :: "PendingFile list"
  rest :: "PendingFile list"

record sys =
  ui :: state
  tasks :: "save_task list"

datatype event =
    ClickSave
  | SaveProgress nat io
  | Select "jsfile list"
  | Remove nat
  | GestureEnd nat layout
  | SetSnap bool

text \<open>\<^verbatim>\<open>onSave\<close> up to its first \<^verbatim>\<open>await\<close>.\<close>

definition onSave_begin :: "sys \<Rightarrow> sys" where
  "onSave_begin y =
     (if pending (ui y) = [] then y
      else \<lparr>ui = (ui y)\<lparr>isSaving := True\<rparr>,
            tasks = tasks y @ [\<lparr>closure = pending (ui y), rest = pending (ui y)\<rparr>]\<rparr>)"

definition drop_task :: "nat \<Rightarrow> save_task list \<Rightarrow> save_task list" where
  "drop_task k ts = take k ts @ drop (Suc k) ts"

definition save_progress :: "nat \<Rightarrow> io \<Rightarrow> sys \<Rightarrow> sys" where
  "save_progress k e y =
     (if k < length (tasks y) then
        (case rest (tasks y ! k) of
           [] \<Rightarrow> y
         | p # ps \<Rightarrow>
             (case save_item e p (store (ui y)) of
                (Some err, r') \<Rightarrow>
                  \<lparr>ui = onSave_abort ((ui y)\<lparr>store := r'\<rparr>), tasks = drop_task k (tasks y)\<rparr>
              | (None, r') \<Rightarrow>
                  if ps = []
                  then \<lparr>ui = onSave_finish (closure (tasks y ! k)) ((ui y)\<lparr>store := r'\<rparr>),
                        tasks = drop_task k (tasks y)\<rparr>
                  else \<lparr>ui = (ui y)\<lparr>store := r'\<rparr>,
                        tasks = (tasks y)[k := (tasks y ! k)\<lparr>rest := ps\<rparr>]\<rparr>))
      else y)"

fun step :: "event \<Rightarrow> sys \<Rightarrow> sys" where
  "step ClickSave y = (if button_disabled (ui y) then y else onSave_begin y)"
| "step (SaveProgress k e) y = save_progress k e y"
| "step (Select files) y = y\<lparr>ui := onSelect (pending (ui y)) files (ui y)\<rparr>"
| "step (Remove idx) y = y\<lparr>ui := removeOne idx (ui y)\<rparr>"
| "step (GestureEnd idx next) y =
     (case onChange idx next (ui y) of None \<Rightarrow> y | Some s' \<Rightarrow> y\<lparr>ui := s'\<rparr>)"
| "step (SetSnap b) y = y\<lparr>ui := (ui y)\<lparr>snap := b\<rparr>\<rparr>"

definition run :: "event list \<Rightarrow> sys \<Rightarrow> sys" where
  "run evs y = fold step evs y"

definition init_sys :: sys where
  "init_sys = \<lparr>ui = init_state, tasks = []\<rparr>"

text \<open>The events that come from the user, not from a running save.\<close>

definition user_event :: "event \<Rightarrow> bool" where
  "user_event ev = (case ev of SaveProgress k e \<Rightarrow> False | _ \<Rightarrow> True)"

text \<open>
  The events of a running save that has \<open>n\<close> items left, from iteration \<open>i\<close> on: before
  the calls of item \<open>j\<close> complete, answered as \<open>env j\<close> says, the page handles the events
  \<open>os j\<close>.
\<close>

fun interleaved :: "(nat \<Rightarrow> event list) \<Rightarrow> (nat \<Rightarrow> io) \<Rightarrow> nat \<Rightarrow> nat \<Rightarrow> event list" where
  "interleaved os env i 0 = []"
| "interleaved os env i (Suc n) =
     os i @ SaveProgress 0 (env i) # interleaved os env (Suc i) n"

section \<open>The geometry adapter\<close>

text \<open>
  \<^verbatim>\<open>ResizableDraggableItem\<close> binds interact.js listeners to an element. The listeners of
  \<^verbatim>\<open>src/components/ResizeableDraggableItem.tsx\<close> and of the component inside
  \<^verbatim>\<open>src/app/gallery/page.tsx\<close> compute the same: the two files differ in the options they
  pass to interact.js.

  A string of \<^verbatim>\<open>el.dataset\<close> matters through what \<^verbatim>\<open>parseFloat\<close> reads from it and
  through being empty: \<open>NumStr n\<close> is a string that reads as \<open>n\<close> (\<^verbatim>\<open>String(n)\<close> is one),
  \<open>OtherStr\<close> a non-empty string that does not start with a number. An attribute that is
  not set is \<open>None\<close> (\<^verbatim>\<open>undefined\<close>).
\<close>

datatype jsstr = EmptyStr | NumStr jsnum | OtherStr

definition js_String :: "jsnum \<Rightarrow> jsstr" where
  "js_String n = NumStr n"

fun parseFloat :: "jsstr \<Rightarrow> jsnum" where
  "parseFloat EmptyStr = NaN"
| "parseFloat (NumStr n) = n"
| "parseFloat OtherStr = NaN"

text \<open>
  Addition of JavaScript numbers. The sum of two finite values overflows to an infinity
  when it reaches \<open>2^1024 - 2^970\<close> in absolute value, as the sum of two doubles does;
  below that bound it is kept as it is (it is not rounded to the nearest double).
\<close>

definition overflow_bound :: real where
  "overflow_bound = 2 ^ 1024 - 2 ^ 970"

fun jsadd :: "jsnum \<Rightarrow> jsnum \<Rightarrow> jsnum" where
  "jsadd (Fin a) (Fin b) =
     (if overflow_bound \<le> a + b then PosInf
      else if a + b \<le> - overflow_bound then NegInf
      else Fin (a + b))"
| "jsadd NaN _ = NaN"
| "jsadd _ NaN = NaN"
| "jsadd PosInf NegInf = NaN"
| "jsadd NegInf PosInf = NaN"
| "jsadd PosInf _ = PosInf"
| "jsadd _ PosInf = PosInf"
| "jsadd NegInf _ = NegInf"
| "jsadd _ NegInf = NegInf"

text \<open>\<^verbatim>\<open>s || d\<close> on a string that may be undefined: the empty string is falsy.\<close>

definition str_or :: "jsstr option \<Rightarrow> jsstr \<Rightarrow> jsstr" where
  "str_or v d = (case v of None \<Rightarrow> d | Some EmptyStr \<Rightarrow> d | Some t \<Rightarrow> t)"

text \<open>\<^verbatim>\<open>n || d\<close> on a number: NaN and zero are falsy.\<close>

definition num_or :: "jsnum \<Rightarrow> jsnum \<Rightarrow> jsnum" where
  "num_or v d = (if v = NaN \<or> v = Fin 0 then d else v)"

text \<open>\<^verbatim>\<open>n || d\<close> on a number that may be undefined.\<close>

definition opt_num_or :: "jsnum option \<Rightarrow> jsnum \<Rightarrow> jsnum" where
  "opt_num_or v d = (case v of None \<Rightarrow> d | Some n \<Rightarrow> num_or n d)"

text \<open>\<^verbatim>\<open>n ?? d\<close>: only \<^verbatim>\<open>null\<close> and \<^verbatim>\<open>undefined\<close> give the default.\<close>

definition nullish :: "jsnum option \<Rightarrow> jsnum \<Rightarrow> jsnum" where
  "nullish v d = (case v of None \<Rightarrow> d | Some n \<Rightarrow> n)"

text \<open>\<^verbatim>\<open>parseFloat(el.dataset.x || "0") || 0\<close>\<close>

definition stored :: "jsstr option \<Rightarrow> jsnum" where
  "stored v = num_or (parseFloat (str_or v (js_String (Fin 0)))) (Fin 0)"

text \<open>
  The element: its inline width and height in pixels, the translation of its
  \<^verbatim>\<open>transform\<close>, and the two data attributes.

  The class list of the element (\<^verbatim>\<open>absolute select-none rounded-xl overflow-hidden
  shadow border bg-white\<close>) has Tailwind's \<^verbatim>\<open>border\<close>: a border of one pixel on every side,
  which Tailwind's base styles (\<^verbatim>\<open>box-sizing: border-box\<close>) place inside the inline size.
  \<^verbatim>\<open>clientWidth\<close> and \<^verbatim>\<open>clientHeight\<close> are what lies within the border, rounded to an
  integer; the element has no padding and, with \<^verbatim>\<open>overflow-hidden\<close>, no scroll bar.
\<close>

record element =
  style_width :: real
  style_height :: real
  translate :: "jsnum \<times> jsnum"
  dataset_x :: "jsstr option"
  dataset_y :: "jsstr option"

definition border_width :: real where
  "border_width = 1"

definition clientWidth :: "element \<Rightarrow> int" where
  "clientWidth el = round (max 0 (style_width el - 2 * border_width))"

definition clientHeight :: "element \<Rightarrow> int" where
  "clientHeight el = round (max 0 (style_height el - 2 * border_width))"

text \<open>The events interact.js hands to the listeners. \<^verbatim>\<open>dx\<close>, \<^verbatim>\<open>dy\<close> and
  \<^verbatim>\<open>deltaRect\<close> may be missing.\<close>

record drag_event =
  dx :: "jsnum option"
  dy :: "jsnum option"

record jsrect =
  width :: real
  height :: real

record delta_rect =
  dleft :: jsnum
  dtop :: jsnum

record resize_event =
  rect :: jsrect
  deltaRect :: "delta_rect option"

text \<open>The \<^verbatim>\<open>// init\<close> block of the effect: size, transform and data attributes from the
  props \<^verbatim>\<open>x, y, w, h\<close>.\<close>

definition init_element :: "layout \<Rightarrow> element" where
  "init_element l = \<lparr>style_width = real_of_int (lw l), style_height = real_of_int (lh l),
     translate = (lx l, ly l), dataset_x = Some (js_String (lx l)),
     dataset_y = Some (js_String (ly l))\<rparr>"

text \<open>The props the page renders item \<open>p\<close> with.\<close>

definition item_props :: "PendingFile \<Rightarrow> layout" where
  "item_props p = \<lparr>lx = px p, ly = py p, lw = pw p, lh = ph p\<rparr>"

definition drag_move :: "drag_event \<Rightarrow> element \<Rightarrow> element" where
  "drag_move ev el =
     (let nx = jsadd (stored (dataset_x el)) (nullish (dx ev) (Fin 0));
          ny = jsadd (stored (dataset_y el)) (nullish (dy ev) (Fin 0))
      in el\<lparr>translate := (nx, ny), dataset_x := Some (js_String nx),
             dataset_y := Some (js_String ny)\<rparr>)"

definition drag_end :: "element \<Rightarrow> layout" where
  "drag_end el = \<lparr>lx = stored (dataset_x el), ly = stored (dataset_y el),
     lw = clientWidth el, lh = clientHeight el\<rparr>"

definition resize_move :: "resize_event \<Rightarrow> element \<Rightarrow> element" where
  "resize_move ev el =
     (let rw = max 80 (width (rect ev));
          rh = max 80 (height (rect ev));
          nx = jsadd (stored (dataset_x el))
                 (opt_num_or (map_option dleft (deltaRect ev)) (Fin 0));
          ny = jsadd (stored (dataset_y el))
                 (opt_num_or (map_option dtop (deltaRect ev)) (Fin 0))
      in el\<lparr>style_width := rw, style_height := rh, translate := (nx, ny),
             dataset_x := Some (js_String nx), dataset_y := Some (js_String ny)\<rparr>)"

definition resize_end :: "element \<Rightarrow> layout" where
  "resize_end el = \<lparr>lx = stored (dataset_x el), ly = stored (dataset_y el),
     lw = clientWidth el, lh = clientHeight el\<rparr>"

text \<open>A gesture: the move events interact.js delivers, then the end event.\<close>

definition drag_gesture :: "drag_event list \<Rightarrow> element \<Rightarrow> layout" where
  "drag_gesture evs el = drag_end (fold drag_move evs el)"

definition resize_gesture :: "resize_event list \<Rightarrow> element \<Rightarrow> layout" where
  "resize_gesture evs el = resize_end (fold resize_move evs el)"

subsection \<open>The options passed to interact.js\<close>

text \<open>
  The modifiers are interact.js's own: the source only lists them.
  \<^verbatim>\<open>restrictEdges({ outer: "parent" })\<close>,
  \<^verbatim>\<open>restrictSize({ min: { width, height } })\<close> and
  \<^verbatim>\<open>snap({ targets: [grid({ x, y })], range })\<close>.
\<close>

datatype modifier =
    RestrictEdges_outer_parent
  | RestrictSize_min real real
  | Snap_grid real real real

record options =
  modifiers :: "modifier list"
  inertia :: bool

text \<open>\<^verbatim>\<open>mods\<close> of \<^verbatim>\<open>page.tsx\<close>, for the value of the \<^verbatim>\<open>snap\<close> prop.\<close>

definition mods :: "bool \<Rightarrow> modifier list" where
  "mods sn =
     [RestrictEdges_outer_parent, RestrictSize_min 80 80] @
     (if sn then (let stp = 8 in [Snap_grid stp stp stp]) else [])"

definition page_draggable :: "bool \<Rightarrow> options" where
  "page_draggable sn = \<lparr>modifiers = mods sn, inertia = True\<rparr>"

definition page_resizable :: "bool \<Rightarrow> options" where
  "page_resizable sn = \<lparr>modifiers = mods sn, inertia = True\<rparr>"

text \<open>\<^verbatim>\<open>src/components/ResizeableDraggableItem.tsx\<close>: \<^verbatim>\<open>.draggable({ listeners })\<close>
  has no modifiers and no inertia; \<^verbatim>\<open>.resizable\<close> has both restrictions.\<close>

definition component_draggable :: options where
  "component_draggable = \<lparr>modifiers = [], inertia = False\<rparr>"

definition component_resizable :: options where
  "component_resizable =
     \<lparr>modifiers = [RestrictEdges_outer_parent, RestrictSize_min 80 80], inertia = True\<rparr>"

section \<open>Reachable states\<close>

text \<open>The states the page reaches when every handler runs to its end before the next
  event: a save with no other event between its \<^verbatim>\<open>await\<close>s.\<close>

inductive reachable :: "state \<Rightarrow> bool" where
  init: "reachable init_state"
| select: "reachable s \<Longrightarrow> reachable (onSelect (pending s) files s)"
| remove: "reachable s \<Longrightarrow> reachable (removeOne idx s)"
| change: "reachable s \<Longrightarrow> onChange idx nl s = Some s' \<Longrightarrow> reachable s'"
| save: "reachable s \<Longrightarrow> reachable (snd (onSave env s))"
| snap: "reachable s \<Longrightarrow> reachable (s\<lparr>snap := b\<rparr>)"

section \<open>Vocabulary of the properties\<close>

definition is_finite :: "jsnum \<Rightarrow> bool" where
  "is_finite v = (case v of Fin r \<Rightarrow> True | _ \<Rightarrow> False)"

text \<open>A number is a multiple of the step.\<close>

definition multiple_of :: "real \<Rightarrow> jsnum \<Rightarrow> bool" where
  "multiple_of stp v = (case v of Fin r \<Rightarrow> r = stp * of_int \<lfloor>r / stp\<rfloor> | _ \<Rightarrow> False)"

text \<open>The element is positioned absolutely at the origin of its parent and translated by
  \<open>(x, y)\<close>: it lies within a parent of size \<open>W\<close> by \<open>H\<close> when its box does.\<close>

definition within_parent :: "real \<Rightarrow> real \<Rightarrow> layout \<Rightarrow> bool" where
  "within_parent W H l =
     (case (lx l, ly l) of
        (Fin a, Fin b) \<Rightarrow>
          0 \<le> a \<and> 0 \<le> b \<and> a + real_of_int (lw l) \<le> W \<and> b + real_of_int (lh l) \<le> H
      | _ \<Rightarrow> False)"

text \<open>The successful outcome of all the calls of one iteration of the save loop.\<close>

definition io_ok :: "io \<Rightarrow> bool" where
  "io_ok e = (upload_ok e \<and> download_url e \<noteq> None \<and> write_ok e)"

text \<open>What iteration \<open>i\<close> of a successful save uploads, writes and calls for item \<open>p\<close>.\<close>

definition key_at :: "(nat \<Rightarrow> io) \<Rightarrow> nat \<times> PendingFile \<Rightarrow> string" where
  "key_at env ip = storage_key (now (env (fst ip))) (pfile (snd ip))"

definition doc_at :: "(nat \<Rightarrow> io) \<Rightarrow> nat \<times> PendingFile \<Rightarrow> GalleryItem" where
  "doc_at env ip = item_doc (the (download_url (env (fst ip)))) (snd ip)"

definition calls_at :: "(nat \<Rightarrow> io) \<Rightarrow> nat \<times> PendingFile \<Rightarrow> call list" where
  "calls_at env ip =
     [UploadBytes (key_at env ip), GetDownloadURL (key_at env ip), AddDoc (doc_at env ip)]"

text \<open>The preview URLs of the pending items are distinct, created and not revoked, and
  nothing has been revoked that was not created.\<close>

definition urls_ok :: "state \<Rightarrow> bool" where
  "urls_ok s =
     (distinct (map previewUrl (pending s)) \<and>
      (\<forall>p \<in> set (pending s). previewUrl p \<notin> set (revoked s) \<and> previewUrl p < created s) \<and>
      (\<forall>u \<in> set (revoked s). u < created s))"

text \<open>The page after a click on the save button in state \<open>s\<close> and the events of the
  save that follows; and the state that the other events of that run lead to by themselves,
  from \<open>s\<close> with the save flag set.\<close>

definition save_run :: "(nat \<Rightarrow> event list) \<Rightarrow> (nat \<Rightarrow> io) \<Rightarrow> state \<Rightarrow> sys" where
  "save_run os env s =
     run (ClickSave # interleaved os env 0 (length (pending s))) \<lparr>ui = s, tasks = []\<rparr>"

definition others_alone :: "(nat \<Rightarrow> event list) \<Rightarrow> state \<Rightarrow> state" where
  "others_alone os s =
     ui (run (concat (map os [0..<length (pending s)])) \<lparr>ui = s\<lparr>isSaving := True\<rparr>, tasks = []\<rparr>)"

text \<open>No other event during the save.\<close>

definition no_events :: "nat \<Rightarrow> event list" where
  "no_events i = []"

section \<open>Examples\<close>

definition file_a :: jsfile where
  "file_a = \<lparr>fname = ''a.png'', ftype = ''image/png'', image = Some (1200, 800)\<rparr>"

definition file_b :: jsfile where
  "file_b = \<lparr>fname = ''b.jpg'', ftype = ''image/jpeg'', image = Some (1000, 500)\<rparr>"

definition file_c :: jsfile where
  "file_c = \<lparr>fname = ''c.gif'', ftype = ''image/gif'', image = None\<rparr>"

definition three_pending :: state where
  "three_pending = onSelect [] [file_a, file_b, file_c] init_state"

definition env_ok :: "nat \<Rightarrow> io" where
  "env_ok i = \<lparr>now = 1700000000000 + i, upload_ok = True,
     download_url = Some (''https://cdn/'' @ decimal i), write_ok = True\<rparr>"

definition env_fail_second :: "nat \<Rightarrow> io" where
  "env_fail_second i = (env_ok i)\<lparr>upload_ok := (i \<noteq> 1)\<rparr>"


text \<open>The element of the first item of the examples, as the page renders it.\<close>

definition fresh_element :: element where
  "fresh_element = init_element \<lparr>lx = Fin 0, ly = Fin 0, lw = 260, lh = 173\<rparr>"

text \<open>Example gestures. \<open>drag_off_grid\<close> is a first move as interact.js delivers it with the
  snap modifier when the pointer starts off the grid; \<open>max_value\<close> is
  \<^verbatim>\<open>Number.MAX_VALUE\<close>.\<close>

definition drag_by_8 :: drag_event where
  "drag_by_8 = \<lparr>dx = Some (Fin 8), dy = Some (Fin 8)\<rparr>"

definition drag_off_grid :: drag_event where
  "drag_off_grid = \<lparr>dx = Some (Fin 6), dy = Some (Fin (85 / 16))\<rparr>"

definition resize_to_grid :: resize_event where
  "resize_to_grid = \<lparr>rect = \<lparr>width = 264, height = 176\<rparr>,
     deltaRect = Some \<lparr>dleft = Fin 0, dtop = Fin 0\<rparr>\<rparr>"

definition drag_infinite :: drag_event where
  "drag_infinite = \<lparr>dx = Some PosInf, dy = Some (Fin 0)\<rparr>"

definition max_value :: real where
  "max_value = 2 ^ 1024 - 2 ^ 971"

definition drag_max :: drag_event where
  "drag_max = \<lparr>dx = Some (Fin max_value), dy = Some (Fin 0)\<rparr>"

text \<open>Two pending items, and a removal of the first while the save waits for its upload.\<close>

definition two_pending :: state where
  "two_pending = onSelect [] [file_a, file_b] init_state"

definition remove_first :: "nat \<Rightarrow> event list" where
  "remove_first i = (if i = 0 then [Remove 0] else [])"

text \<open>A third file is selected while the save waits for its first upload.\<close>

definition select_third :: "nat \<Rightarrow> event list" where
  "select_third i = (if i = 0 then [Select [file_c]] else [])"

section \<open>Properties of the save pipeline\<close>

lemma save_item_ok:
  assumes "io_ok e"
  shows "save_item e p r = (None, \<lparr>objects = objects r @ [(storage_key (now e) (pfile p), pfile p)],
     docs = docs r @ [item_doc (the (download_url e)) p],
     calls = calls r @ [UploadBytes (storage_key (now e) (pfile p)),
        GetDownloadURL (storage_key (now e) (pfile p)),
        AddDoc (item_doc (the (download_url e)) p)]\<rparr>)"
  using assms
  by (auto simp: io_ok_def save_item_def uploadBytes_def getDownloadURL_def addDoc_def Let_def)

lemma save_loop_ok:
  assumes "\<forall>j < length ps. io_ok (env (i + j))"
  shows "save_loop env i ps r = (None,
     \<lparr>objects = objects r @ map (\<lambda>ip. (key_at env ip, pfile (snd ip))) (enumerate i ps),
      docs = docs r @ map (doc_at env) (enumerate i ps),
      calls = calls r @ concat (map (calls_at env) (enumerate i ps))\<rparr>)"
  using assms
proof (induction ps arbitrary: i r)
  case Nil
  then show ?case by simp
next
  case (Cons p ps)
  have ok: "io_ok (env i)" using Cons.prems by force
  have rest: "\<forall>j < length ps. io_ok (env (Suc i + j))" using Cons.prems by force
  show ?case
    by (simp add: save_item_ok [OF ok] Cons.IH [OF rest] key_at_def doc_at_def calls_at_def)
qed

text \<open>What a failing iteration leaves behind.\<close>

lemma save_item_fail_result:
  assumes "\<not> io_ok e"
  shows "fst (save_item e p r) \<noteq> None"
  using assms
  by (auto simp: io_ok_def save_item_def uploadBytes_def getDownloadURL_def addDoc_def Let_def
      split: option.splits)

lemma save_item_fail_docs:
  assumes "\<not> io_ok e"
  shows "docs (snd (save_item e p r)) = docs r"
  using assms
  by (auto simp: io_ok_def save_item_def uploadBytes_def getDownloadURL_def addDoc_def Let_def
      split: option.splits)

lemma save_item_objects:
  "objects (snd (save_item e p r)) =
     objects r @ (if upload_ok e then [(storage_key (now e) (pfile p), pfile p)] else [])"
  by (auto simp: save_item_def uploadBytes_def getDownloadURL_def addDoc_def Let_def
      split: option.splits)

lemma save_item_calls:
  "calls (snd (save_item e p r)) =
     calls r @ UploadBytes (storage_key (now e) (pfile p)) #
       (if upload_ok e
        then GetDownloadURL (storage_key (now e) (pfile p)) #
          (case download_url e of None \<Rightarrow> [] | Some u \<Rightarrow> [AddDoc (item_doc u p)])
        else [])"
  by (auto simp: save_item_def uploadBytes_def getDownloadURL_def addDoc_def Let_def
      split: option.splits)

lemma save_loop_fail:
  assumes "k < length ps" and "\<forall>j < k. io_ok (env (i + j))" and "\<not> io_ok (env (i + k))"
  shows "save_loop env i ps r =
     save_item (env (i + k)) (ps ! k) (snd (save_loop env i (take k ps) r))"
  using assms
proof (induction ps arbitrary: i k r)
  case Nil
  then show ?case by simp
next
  case (Cons p ps)
  show ?case
  proof (cases k)
    case 0
    with Cons.prems have "fst (save_item (env i) p r) \<noteq> None"
      by (simp add: save_item_fail_result)
    with 0 show ?thesis by (auto split: prod.splits option.splits)
  next
    case (Suc k')
    have ok: "io_ok (env i)" using Cons.prems Suc by force
    have a: "k' < length ps" using Cons.prems Suc by simp
    have b: "\<forall>j < k'. io_ok (env (Suc i + j))" using Cons.prems Suc by force
    have c: "\<not> io_ok (env (Suc i + k'))" using Cons.prems Suc by simp
    show ?thesis
      using Cons.IH [OF a b c] Suc by (simp add: save_item_ok [OF ok])
  qed
qed

lemma onSave_ok:
  assumes "pending s \<noteq> []" and "\<forall>i < length (pending s). io_ok (env i)"
  shows "onSave env s = (None,
     s\<lparr>pending := [], isSaving := False,
       revoked := revoked s @ map previewUrl (pending s),
       store := \<lparr>objects = objects (store s) @
                    map (\<lambda>ip. (key_at env ip, pfile (snd ip))) (enumerate 0 (pending s)),
                 docs = docs (store s) @ map (doc_at env) (enumerate 0 (pending s)),
                 calls = calls (store s) @
                    concat (map (calls_at env) (enumerate 0 (pending s)))\<rparr>\<rparr>)"
proof -
  have "\<forall>j < length (pending s). io_ok (env (0 + j))" using assms(2) by simp
  from save_loop_ok [OF this] assms(1) show ?thesis
    by (simp add: onSave_def onSave_finish_def revokeAll_def)
qed

lemma onSave_fail:
  assumes "k < length (pending s)" and "\<forall>j < k. io_ok (env j)" and "\<not> io_ok (env k)"
  shows "onSave env s =
     (let r = \<lparr>objects = objects (store s) @
                    map (\<lambda>ip. (key_at env ip, pfile (snd ip))) (enumerate 0 (take k (pending s))),
               docs = docs (store s) @ map (doc_at env) (enumerate 0 (take k (pending s))),
               calls = calls (store s) @
                    concat (map (calls_at env) (enumerate 0 (take k (pending s))))\<rparr>;
          res = save_item (env k) (pending s ! k) r
      in (fst res, s\<lparr>isSaving := False, store := snd res\<rparr>))"
proof -
  have ne: "pending s \<noteq> []" using assms(1) by auto
  have a: "\<forall>j < k. io_ok (env (0 + j))" using assms(2) by simp
  have b: "\<not> io_ok (env (0 + k))" using assms(3) by simp
  have c: "\<forall>j < length (take k (pending s)). io_ok (env (0 + j))" using assms(1,2) by simp
  let ?r = "\<lparr>objects = objects (store s) @
                    map (\<lambda>ip. (key_at env ip, pfile (snd ip))) (enumerate 0 (take k (pending s))),
               docs = docs (store s) @ map (doc_at env) (enumerate 0 (take k (pending s))),
               calls = calls (store s) @
                    concat (map (calls_at env) (enumerate 0 (take k (pending s))))\<rparr>"
  have loop: "save_loop env 0 (pending s) (store s) = save_item (env k) (pending s ! k) ?r"
    using save_loop_fail [OF assms(1) a b, of "store s"] save_loop_ok [OF c, of "store s"]
    by simp
  obtain err r' where res: "save_item (env k) (pending s ! k) ?r = (Some err, r')"
    using save_item_fail_result [OF assms(3), of "pending s ! k" ?r]
    by (cases "save_item (env k) (pending s ! k) ?r") auto
  show ?thesis
    using ne by (simp add: onSave_def onSave_abort_def Let_def loop res)
qed

lemma round_a: "round (520 / 3 :: real) = 173"
  by (rule round_unique') simp

lemma round_c: "round (858 / 5 :: real) = 172"
  by (rule round_unique') simp

lemma baseH_a: "baseH (Some (1200, 800)) = 173"
  by (simp add: baseH_def ratio_def baseW_def round_a)

lemma baseH_b: "baseH (Some (1000, 500)) = 160"
  by (simp add: baseH_def ratio_def baseW_def)

lemma baseH_c: "baseH None = 172"
  by (simp add: baseH_def ratio_def baseW_def round_c)

lemma three_pending_eq:
  "three_pending = \<lparr>pending =
      [\<lparr>pfile = file_a, previewUrl = 0, px = Fin 0, py = Fin 0, pw = 260, ph = 173, caption = None\<rparr>,
       \<lparr>pfile = file_b, previewUrl = 2, px = Fin 16, py = Fin 16, pw = 260, ph = 160, caption = None\<rparr>,
       \<lparr>pfile = file_c, previewUrl = 4, px = Fin 32, py = Fin 32, pw = 260, ph = 172, caption = None\<rparr>],
     isSaving = False, snap = True, created = 6, revoked = [], store = init_remote\<rparr>"
  by (simp add: three_pending_def onSelect_def createObjectURL_def readImageDims_def init_state_def
      baseW_def file_a_def file_b_def file_c_def baseH_a baseH_b baseH_c)

lemma count_list_distinct:
  "distinct xs \<Longrightarrow> x \<in> set xs \<Longrightarrow> count_list xs x = 1"
  by (induction xs) auto

lemma count_list_once:
  assumes "distinct (map f ps)" and "\<forall>q \<in> set ps. f q \<notin> set rs" and "p \<in> set ps"
  shows "count_list (rs @ map f ps) (f p) = 1"
proof -
  have "count_list rs (f p) = 0" using assms(2,3) by (simp add: count_list_0_iff)
  moreover have "count_list (map f ps) (f p) = 1"
    using assms(1,3) by (intro count_list_distinct) auto
  ultimately show ?thesis by simp
qed

lemma onSave_fail_fields:
  assumes "k < length (pending s)" and "\<forall>j < k. io_ok (env j)" and "\<not> io_ok (env k)"
  shows "fst (onSave env s) \<noteq> None"
    and "pending (snd (onSave env s)) = pending s"
    and "revoked (snd (onSave env s)) = revoked s"
    and "created (snd (onSave env s)) = created s"
    and "snap (snd (onSave env s)) = snap s"
    and "\<not> isSaving (snd (onSave env s))"
    and "docs (store (snd (onSave env s))) =
           docs (store s) @ map (doc_at env) (enumerate 0 (take k (pending s)))"
    and "objects (store (snd (onSave env s))) =
           objects (store s) @
           map (\<lambda>ip. (key_at env ip, pfile (snd ip))) (enumerate 0 (take k (pending s))) @
           (if upload_ok (env k) then [(key_at env (k, pending s ! k), pfile (pending s ! k))] else [])"
    and "calls (store (snd (onSave env s))) =
           calls (store s) @ concat (map (calls_at env) (enumerate 0 (take k (pending s)))) @
           UploadBytes (key_at env (k, pending s ! k)) #
           (if upload_ok (env k)
            then GetDownloadURL (key_at env (k, pending s ! k)) #
              (case download_url (env k) of
                 None \<Rightarrow> []
               | Some u \<Rightarrow> [AddDoc (item_doc u (pending s ! k))])
            else [])"
  using save_item_fail_result [OF assms(3)]
  by (simp_all add: onSave_fail [OF assms] Let_def save_item_fail_docs [OF assms(3)]
      save_item_objects save_item_calls key_at_def)

text \<open>
  C2. When the calls of item \<open>k\<close> are the first to fail, the save ends with an error and
  with \<open>isSaving\<close> false; the calls made are those of the items before \<open>k\<close> and the calls
  of item \<open>k\<close> up to the failing one, nothing after; the documents of the items before \<open>k\<close>
  are in the store; and the items from \<open>k\<close> on are still pending.
\<close>

theorem onSave_failure_aborts:
  assumes "k < length (pending s)" and "\<forall>j < k. io_ok (env j)" and "\<not> io_ok (env k)"
  shows "fst (onSave env s) \<noteq> None \<and>
    \<not> isSaving (snd (onSave env s)) \<and>
    calls (store (snd (onSave env s))) =
      calls (store s) @ concat (map (calls_at env) (enumerate 0 (take k (pending s)))) @
      UploadBytes (key_at env (k, pending s ! k)) #
      (if upload_ok (env k)
       then GetDownloadURL (key_at env (k, pending s ! k)) #
         (case download_url (env k) of
            None \<Rightarrow> []
          | Some u \<Rightarrow> [AddDoc (item_doc u (pending s ! k))])
       else []) \<and>
    objects (store (snd (onSave env s))) =
      objects (store s) @
      map (\<lambda>ip. (key_at env ip, pfile (snd ip))) (enumerate 0 (take k (pending s))) @
      (if upload_ok (env k) then [(key_at env (k, pending s ! k), pfile (pending s ! k))] else []) \<and>
    docs (store (snd (onSave env s))) =
      docs (store s) @ map (doc_at env) (enumerate 0 (take k (pending s))) \<and>
    length (docs (store (snd (onSave env s)))) = length (docs (store s)) + k \<and>
    drop k (pending (snd (onSave env s))) = drop k (pending s)"
  using assms(1) by (simp add: onSave_fail_fields [OF assms])

theorem onSave_failure_aborts_witness:
  "(1::nat) < length (pending three_pending) \<and>
   io_ok (env_fail_second 0) \<and> \<not> io_ok (env_fail_second 1) \<and>
   fst (onSave env_fail_second three_pending) \<noteq> None \<and>
   \<not> isSaving (snd (onSave env_fail_second three_pending)) \<and>
   map fileName (docs (store (snd (onSave env_fail_second three_pending)))) = [''a.png''] \<and>
   length (objects (store (snd (onSave env_fail_second three_pending)))) = 1 \<and>
   map (fname \<circ> pfile) (drop 1 (pending (snd (onSave env_fail_second three_pending)))) =
     [''b.jpg'', ''c.gif'']"
proof -
  have h1: "1 < length (pending three_pending)" by (simp add: three_pending_eq)
  have h2: "\<forall>j < 1. io_ok (env_fail_second j)"
    by (simp add: io_ok_def env_fail_second_def env_ok_def)
  have h3: "\<not> io_ok (env_fail_second 1)"
    by (simp add: io_ok_def env_fail_second_def env_ok_def)
  have ok0: "io_ok (env_fail_second 0)" using h2 by simp
  have up: "upload_ok (env_fail_second (Suc 0)) = False" by (simp add: env_fail_second_def)
  have p: "pending three_pending =
      [\<lparr>pfile = file_a, previewUrl = 0, px = Fin 0, py = Fin 0, pw = 260, ph = 173, caption = None\<rparr>,
       \<lparr>pfile = file_b, previewUrl = 2, px = Fin 16, py = Fin 16, pw = 260, ph = 160, caption = None\<rparr>,
       \<lparr>pfile = file_c, previewUrl = 4, px = Fin 32, py = Fin 32, pw = 260, ph = 172, caption = None\<rparr>]"
    by (simp add: three_pending_eq)
  have st: "docs (store three_pending) = []" "objects (store three_pending) = []"
    by (simp_all add: three_pending_eq init_remote_def)
  show ?thesis
    using onSave_failure_aborts [OF h1 h2 h3] ok0 h3
    by (simp add: p st up doc_at_def item_doc_def file_a_def file_b_def file_c_def)
qed

text \<open>
  C3. A failing save changes neither the pending list nor the log of revocations: every
  item is still pending with its layout, also those whose documents were written. A second
  save in which every call succeeds therefore writes a document for every item again: the
  store then holds two documents for each item before \<open>k\<close>.
\<close>

theorem onSave_failure_keeps_pending:
  assumes "k < length (pending s)" and "\<forall>j < k. io_ok (env j)" and "\<not> io_ok (env k)"
    and "\<forall>i < length (pending s). io_ok (env' i)"
  shows "pending (snd (onSave env s)) = pending s \<and>
    revoked (snd (onSave env s)) = revoked s \<and>
    fst (onSave env' (snd (onSave env s))) = None \<and>
    docs (store (snd (onSave env' (snd (onSave env s))))) =
      docs (store s) @ map (doc_at env) (enumerate 0 (take k (pending s))) @
      map (doc_at env') (enumerate 0 (pending s)) \<and>
    pending (snd (onSave env' (snd (onSave env s)))) = []"
proof -
  note f = onSave_fail_fields [OF assms(1-3)]
  have ne: "pending (snd (onSave env s)) \<noteq> []" using assms(1) f(2) by auto
  have ok: "\<forall>i < length (pending (snd (onSave env s))). io_ok (env' i)"
    using assms(4) f(2) by simp
  show ?thesis
    by (simp add: onSave_ok [OF ne ok] f)
qed

theorem onSave_failure_keeps_pending_witness:
  "(1::nat) < length (pending three_pending) \<and>
   io_ok (env_fail_second 0) \<and> \<not> io_ok (env_fail_second 1) \<and>
   io_ok (env_ok 0) \<and> io_ok (env_ok 1) \<and> io_ok (env_ok 2) \<and>
   pending (snd (onSave env_fail_second three_pending)) = pending three_pending \<and>
   revoked (snd (onSave env_fail_second three_pending)) = [] \<and>
   map fileName (docs (store (snd (onSave env_ok (snd (onSave env_fail_second three_pending)))))) =
     [''a.png'', ''a.png'', ''b.jpg'', ''c.gif'']"
proof -
  have h1: "1 < length (pending three_pending)" by (simp add: three_pending_eq)
  have h2: "\<forall>j < 1. io_ok (env_fail_second j)"
    by (simp add: io_ok_def env_fail_second_def env_ok_def)
  have h3: "\<not> io_ok (env_fail_second 1)"
    by (simp add: io_ok_def env_fail_second_def env_ok_def)
  have h4: "\<forall>i < length (pending three_pending). io_ok (env_ok i)"
    by (simp add: io_ok_def env_ok_def)
  have ok: "io_ok (env_fail_second 0)" "io_ok (env_ok 0)" "io_ok (env_ok 1)" "io_ok (env_ok 2)"
    using h2 by (simp_all add: io_ok_def env_ok_def)
  have p: "pending three_pending =
      [\<lparr>pfile = file_a, previewUrl = 0, px = Fin 0, py = Fin 0, pw = 260, ph = 173, caption = None\<rparr>,
       \<lparr>pfile = file_b, previewUrl = 2, px = Fin 16, py = Fin 16, pw = 260, ph = 160, caption = None\<rparr>,
       \<lparr>pfile = file_c, previewUrl = 4, px = Fin 32, py = Fin 32, pw = 260, ph = 172, caption = None\<rparr>]"
    by (simp add: three_pending_eq)
  have st: "docs (store three_pending) = []" "revoked three_pending = []"
    by (simp_all add: three_pending_eq init_remote_def)
  have t: "pending (snd (onSave env_fail_second three_pending)) = pending three_pending \<and>
    revoked (snd (onSave env_fail_second three_pending)) = revoked three_pending \<and>
    fst (onSave env_ok (snd (onSave env_fail_second three_pending))) = None \<and>
    docs (store (snd (onSave env_ok (snd (onSave env_fail_second three_pending))))) =
      docs (store three_pending) @
      map (doc_at env_fail_second) (enumerate 0 (take 1 (pending three_pending))) @
      map (doc_at env_ok) (enumerate 0 (pending three_pending)) \<and>
    pending (snd (onSave env_ok (snd (onSave env_fail_second three_pending)))) = []"
    by (rule onSave_failure_keeps_pending [OF h1 h2 h3 h4])
  have d: "map fileName (docs (store (snd (onSave env_ok (snd (onSave env_fail_second three_pending)))))) =
     [''a.png'', ''a.png'', ''b.jpg'', ''c.gif'']"
    using t by (simp add: p st doc_at_def item_doc_def file_a_def file_b_def file_c_def)
  show ?thesis
    using t ok h3 d h1 by (simp add: st)
qed

section \<open>Properties of file selection\<close>

lemma select_loop_eq:
  "select_loop m fs entries s =
     (entries @ map (\<lambda>(i, f). \<lparr>pfile = f, previewUrl = created s + 2 * i,
          px = Fin (16 * real (m + length entries + i)),
          py = Fin (16 * real (m + length entries + i)),
          pw = 260, ph = baseH (image f), caption = None\<rparr>) (enumerate 0 fs),
      s\<lparr>created := created s + 2 * length fs\<rparr>)"
proof (induction fs arbitrary: entries s)
  case Nil
  then show ?case by simp
next
  case (Cons f fs)
  have shift: "enumerate (Suc 0) fs = map (\<lambda>(i, f). (Suc i, f)) (enumerate 0 fs)"
    by (simp add: enumerate_eq_zip map_Suc_upt [symmetric] zip_map1 del: upt_Suc)
  show ?case
    by (simp add: Cons.IH createObjectURL_def readImageDims_def baseW_def shift
        case_prod_unfold o_def add.commute add.left_commute)
qed

lemma onSelect_pending:
  "pending (onSelect captured files s) =
     pending s @ map (\<lambda>(i, f). \<lparr>pfile = f, previewUrl = created s + 2 * i,
          px = Fin (16 * real (length captured + i)),
          py = Fin (16 * real (length captured + i)),
          pw = 260, ph = baseH (image f), caption = None\<rparr>) (enumerate 0 files)"
  by (simp add: onSelect_def select_loop_eq)

lemma onSelect_others:
  "revoked (onSelect captured files s) = revoked s"
  "created (onSelect captured files s) = created s + 2 * length files"
  "isSaving (onSelect captured files s) = isSaving s"
  "store (onSelect captured files s) = store s"
  "snap (onSelect captured files s) = snap s"
  by (simp_all add: onSelect_def select_loop_eq)

text \<open>
  C6. Selecting files appends one entry per file, in order, to the pending list and leaves
  the entries it had unchanged; each new entry has a fresh preview URL, width 260, the
  height of the heuristic, and the position \<open>16 n\<close> for its index \<open>n\<close>. The first item,
  1200 by 800, starts at \<open>(0, 0)\<close> with width 260 and height 173.
\<close>

lemma image_file_a: "image file_a = Some (1200, 800)"
  by (simp add: file_a_def)

theorem onSelect_appends:
  "pending (onSelect captured files s) =
     pending s @ map (\<lambda>(i, f). \<lparr>pfile = f, previewUrl = created s + 2 * i,
          px = Fin (16 * real (length captured + i)),
          py = Fin (16 * real (length captured + i)),
          pw = 260, ph = baseH (image f), caption = None\<rparr>) (enumerate 0 files) \<and>
   length (pending (onSelect captured files s)) = length (pending s) + length files \<and>
   take (length (pending s)) (pending (onSelect captured files s)) = pending s \<and>
   image file_a = Some (1200, 800) \<and>
   round (260 * 800 / 1200 :: real) = 173 \<and>
   pending (onSelect (pending init_state) [file_a] init_state) =
     [\<lparr>pfile = file_a, previewUrl = 0, px = Fin 0, py = Fin 0, pw = 260, ph = 173,
       caption = None\<rparr>]"
  by (simp add: onSelect_pending init_state_def round_a image_file_a baseH_a)

lemma ratio_ge: "0.3 \<le> ratio d"
  by (auto simp: ratio_def max_def split: option.splits)

lemma baseH_ge: "160 \<le> baseH d"
  by (simp add: baseH_def)

lemma baseH_Suc:
  "baseH (Some (Suc n, h)) = max 160 (round (260 * max 0.3 (real h / real (Suc n))))"
  by (simp add: baseH_def ratio_def baseW_def del: of_nat_Suc)

lemma baseH_wide:
  assumes "520 * h < 321 * Suc n"
  shows "baseH (Some (Suc n, h)) = 160"
proof -
  define q where "q = real h / real (Suc n)"
  have pos: "0 < real (Suc n)" by simp
  have "real (520 * h) < real (321 * Suc n)"
    using assms by (simp only: of_nat_less_iff)
  then have "520 * real h < 321 * real (Suc n)"
    by (simp only: of_nat_mult of_nat_numeral)
  then have "real h < 321 / 520 * real (Suc n)"
    by linarith
  then have "q < 321 / 520"
    unfolding q_def using pos by (simp only: pos_divide_less_eq)
  then have "260 * max 0.3 q + 1 / 2 < 161"
    by (auto simp: max_def)
  then have "round (260 * max 0.3 q) < 161"
    unfolding round_def by (simp only: floor_less_iff of_int_numeral)
  then have "max 160 (round (260 * max 0.3 q)) = 160"
    by simp
  then show ?thesis
    unfolding baseH_Suc q_def .
qed

lemma baseH_tall:
  assumes "\<not> 520 * h < 321 * Suc n"
  shows "baseH (Some (Suc n, h)) = round (260 * (real h / real (Suc n)))"
proof -
  define q where "q = real h / real (Suc n)"
  have pos: "0 < real (Suc n)" by simp
  have "real (321 * Suc n) \<le> real (520 * h)"
    using assms by (simp only: of_nat_le_iff)
  then have "321 * real (Suc n) \<le> 520 * real h"
    by (simp only: of_nat_mult of_nat_numeral)
  then have "321 / 520 * real (Suc n) \<le> real h"
    by linarith
  then have a: "321 / 520 \<le> q"
    unfolding q_def using pos by (simp only: pos_le_divide_eq)
  then have m: "max 0.3 q = q"
    by (simp add: max_def)
  have "160 \<le> 260 * q + 1 / 2"
    using a by simp
  then have "160 \<le> round (260 * q)"
    unfolding round_def by (simp only: le_floor_iff of_int_numeral)
  then have "max 160 (round (260 * q)) = round (260 * q)"
    by (rule max_absorb2)
  then have "max 160 (round (260 * max 0.3 q)) = round (260 * q)"
    by (simp only: m)
  then show ?thesis
    unfolding baseH_Suc q_def .
qed

text \<open>
  C10. Every entry \<^verbatim>\<open>onSelect\<close> adds is 260 wide and as high as
  \<^verbatim>\<open>Math.max(160, Math.round(260 * ratio))\<close>, the ratio being
  \<^verbatim>\<open>Math.max(0.3, h / w)\<close> of the image's dimensions, or 0.66 when the dimensions cannot be
  read or the width is zero. The height is at least 160 and the ratio at least 0.3; an
  image with \<open>260 h / w < 160.5\<close> gets the height 160, and any other the rounded value of
  its own ratio.
\<close>

theorem seeded_size:
  "map pw (drop (length (pending s)) (pending (onSelect captured files s))) =
     map (\<lambda>f. 260) files \<and>
   map ph (drop (length (pending s)) (pending (onSelect captured files s))) =
     map (\<lambda>f. baseH (image f)) files \<and>
   baseH (Some (Suc n, h)) = max 160 (round (260 * max 0.3 (real h / real (Suc n)))) \<and>
   baseH (Some (0, h)) = max 160 (round (260 * 0.66 :: real)) \<and>
   baseH None = max 160 (round (260 * 0.66 :: real)) \<and>
   baseH None = 172 \<and>
   160 \<le> baseH d \<and>
   0.3 \<le> ratio d \<and>
   baseH (Some (Suc n, h)) =
     (if 520 * h < 321 * Suc n then 160 else round (260 * (real h / real (Suc n)))) \<and>
   baseH (Some (1000, 500)) = 160 \<and>
   round (260 * (500 / 1000) :: real) = 130"
proof -
  have e: "map snd (enumerate 0 files) = files"
    by (simp add: enumerate_eq_zip)
  have "map pw (drop (length (pending s)) (pending (onSelect captured files s))) =
     map ((\<lambda>f. 260) \<circ> snd) (enumerate 0 files)"
    by (simp add: onSelect_pending case_prod_unfold o_def)
  also have "\<dots> = map (\<lambda>f. 260) (map snd (enumerate 0 files))"
    by (simp only: map_map)
  finally have w: "map pw (drop (length (pending s)) (pending (onSelect captured files s))) =
     map (\<lambda>f. 260) files"
    by (simp only: e)
  have "map ph (drop (length (pending s)) (pending (onSelect captured files s))) =
     map ((\<lambda>f. baseH (image f)) \<circ> snd) (enumerate 0 files)"
    by (simp add: onSelect_pending case_prod_unfold o_def)
  also have "\<dots> = map (\<lambda>f. baseH (image f)) (map snd (enumerate 0 files))"
    by (simp only: map_map)
  finally have hh: "map ph (drop (length (pending s)) (pending (onSelect captured files s))) =
     map (\<lambda>f. baseH (image f)) files"
    by (simp only: e)
  have f: "baseH (Some (Suc n, h)) = max 160 (round (260 * max 0.3 (real h / real (Suc n))))"
    by (rule baseH_Suc)
  have z: "baseH (Some (0, h)) = max 160 (round (260 * 0.66 :: real))"
    by (simp add: baseH_def ratio_def baseW_def)
  have n: "baseH None = max 160 (round (260 * 0.66 :: real))"
    by (simp add: baseH_def ratio_def baseW_def)
  have c: "baseH (Some (Suc n, h)) =
     (if 520 * h < 321 * Suc n then 160 else round (260 * (real h / real (Suc n))))"
    using baseH_wide baseH_tall by simp
  have r: "round (260 * (500 / 1000) :: real) = 130" by simp
  show ?thesis
    by (intro conjI; (rule w hh f z n c r baseH_c baseH_b baseH_ge ratio_ge))
qed

section \<open>Preview URLs\<close>

lemma removeOne_revokes_one:
  assumes "idx < length (pending s)"
  shows "length (pending (removeOne idx s)) = length (pending s) - 1"
    and "revoked (removeOne idx s) = revoked s @ [previewUrl (pending s ! idx)]"
  using assms by (simp_all add: removeOne_def)

lemma unmount_eq: "unmount s = s"
  by (simp add: unmount_def cleanup_closure_def init_state_def revokeAll_def)

text \<open>
  C7. The cleanup that runs when the page is unmounted revokes the previews of the list
  its closure holds, which is the empty list of the first render: it revokes nothing,
  whatever is pending. After one file has been selected and the page is unmounted, the
  preview URL of that file is still live.
\<close>

theorem unmount_revokes_nothing:
  "cleanup_closure = [] \<and>
   revoked (unmount s) = revoked s \<and>
   live_previews (unmount s) = live_previews s \<and>
   map previewUrl (pending (onSelect (pending init_state) [file_a] init_state)) = [0] \<and>
   revoked (unmount (onSelect (pending init_state) [file_a] init_state)) = [] \<and>
   live_previews (unmount (onSelect (pending init_state) [file_a] init_state)) = [0]"
  by (simp add: unmount_eq cleanup_closure_def live_previews_def onSelect_pending onSelect_others)
     (simp add: init_state_def)

section \<open>The save flag\<close>

lemma isSaving_removeOne: "isSaving (removeOne idx s) = isSaving s"
  by (simp add: removeOne_def)

lemma isSaving_onChange: "onChange idx next s = Some s' \<Longrightarrow> isSaving s' = isSaving s"
  by (auto simp: onChange_def split: if_splits)

lemma save_progress_inv:
  assumes "length (tasks y) \<le> 1" and "isSaving (ui y) = (tasks y \<noteq> [])"
  shows "length (tasks (save_progress k e y)) \<le> 1 \<and>
    isSaving (ui (save_progress k e y)) = (tasks (save_progress k e y) \<noteq> [])"
proof (cases "k < length (tasks y)")
  case False
  then show ?thesis using assms by (simp add: save_progress_def)
next
  case True
  then obtain t where t: "tasks y = [t]" and k: "k = 0"
    using assms(1) by (cases "tasks y") auto
  show ?thesis
    using assms(2)
    by (auto simp: save_progress_def t k drop_task_def onSave_abort_def onSave_finish_def
        revokeAll_def split: list.splits prod.splits option.splits)
qed

lemma step_inv:
  assumes "length (tasks y) \<le> 1" and "isSaving (ui y) = (tasks y \<noteq> [])"
  shows "length (tasks (step ev y)) \<le> 1 \<and>
    isSaving (ui (step ev y)) = (tasks (step ev y) \<noteq> [])"
proof (cases ev)
  case ClickSave
  then show ?thesis
    using assms by (auto simp: button_disabled_def canSave_def onSave_begin_def)
next
  case (SaveProgress k e)
  then show ?thesis using save_progress_inv [OF assms] by simp
next
  case (Select files)
  then show ?thesis using assms by (simp add: onSelect_others)
next
  case (Remove idx)
  then show ?thesis using assms by (simp add: isSaving_removeOne)
next
  case (GestureEnd idx nl)
  then show ?thesis using assms by (auto simp: isSaving_onChange split: option.splits)
next
  case (SetSnap b)
  then show ?thesis using assms by simp
qed

lemma run_inv:
  assumes "length (tasks y) \<le> 1" and "isSaving (ui y) = (tasks y \<noteq> [])"
  shows "length (tasks (run evs y)) \<le> 1 \<and>
    isSaving (ui (run evs y)) = (tasks (run evs y) \<noteq> [])"
  using assms unfolding run_def
proof (induction evs arbitrary: y)
  case Nil
  then show ?case by simp
next
  case (Cons ev evs)
  have "length (tasks (step ev y)) \<le> 1 \<and>
    isSaving (ui (step ev y)) = (tasks (step ev y) \<noteq> [])"
    by (rule step_inv [OF Cons.prems])
  then show ?case
    using Cons.IH [of "step ev y"] by simp
qed

lemma onSave_isSaving: "isSaving (snd (onSave env s)) = (pending s = [] \<and> isSaving s)"
  by (auto simp: onSave_def onSave_abort_def onSave_finish_def revokeAll_def Let_def
      split: prod.splits option.splits)

lemma onSave_failed_state:
  assumes "fst (onSave env s) \<noteq> None"
  shows "snd (onSave env s) = s\<lparr>store := store (snd (onSave env s)), isSaving := False\<rparr>"
    and "pending s \<noteq> []"
  using assms
  by (auto simp: onSave_def onSave_abort_def onSave_finish_def revokeAll_def Let_def
      split: prod.splits option.splits if_splits)

text \<open>
  C8. At most one save is running in any state the page reaches, and \<open>isSaving\<close> is true
  exactly while one is; the button is disabled exactly when \<open>isSaving\<close> is true or nothing
  is pending, and a click on it then changes nothing; after \<^verbatim>\<open>onSave\<close> has ended,
  successfully or not, \<open>isSaving\<close> is false. A failed save leaves the page's state as it
  was but for the remote store: what shows the failure is the button, back on its idle
  label with the unchanged count.
\<close>

theorem save_is_exclusive:
  assumes "fst (onSave env s) \<noteq> None"
  shows "length (tasks (run evs init_sys)) \<le> 1 \<and>
    isSaving (ui (run evs init_sys)) = (tasks (run evs init_sys) \<noteq> []) \<and>
    button_disabled s' = (isSaving s' \<or> pending s' = []) \<and>
    step ClickSave y = (if isSaving (ui y) \<or> pending (ui y) = [] then y else onSave_begin y) \<and>
    isSaving (snd (onSave env' s')) = (pending s' = [] \<and> isSaving s') \<and>
    \<not> isSaving (snd (onSave env s)) \<and>
    snd (onSave env s) = s\<lparr>store := store (snd (onSave env s)), isSaving := False\<rparr> \<and>
    save_label (snd (onSave env s)) =
      ''Save ('' @ decimal (length (pending s)) @ '')''"
proof -
  have i: "length (tasks init_sys) \<le> 1" "isSaving (ui init_sys) = (tasks init_sys \<noteq> [])"
    by (simp_all add: init_sys_def init_state_def)
  note f = onSave_failed_state [OF assms]
  have l: "save_label (snd (onSave env s)) =
      ''Save ('' @ decimal (length (pending s)) @ '')''"
    by (subst f(1)) (simp add: save_label_def f(2))
  have n: "\<not> isSaving (snd (onSave env s))"
    by (simp add: onSave_isSaving f(2))
  have c: "step ClickSave y =
      (if isSaving (ui y) \<or> pending (ui y) = [] then y else onSave_begin y)"
    by (auto simp: button_disabled_def canSave_def)
  have b: "button_disabled s' = (isSaving s' \<or> pending s' = [])"
    by (auto simp: button_disabled_def canSave_def)
  show ?thesis
    using run_inv [OF i, of evs] b c onSave_isSaving [of env' s'] n f(1) l
    by (intro conjI) simp_all
qed

lemma decimal_3: "decimal 3 = ''3''"
  by code_simp

lemma two_clicks:
  "tasks (run [Select [file_a, file_b], ClickSave, ClickSave, SaveProgress 0 (env_ok 0)] init_sys)
     = [\<lparr>closure = pending (onSelect [] [file_a, file_b] init_state),
         rest = tl (pending (onSelect [] [file_a, file_b] init_state))\<rparr>]"
proof -
  let ?s = "onSelect [] [file_a, file_b] init_state"
  obtain a b where ab: "pending ?s = [a, b]"
    by (simp add: onSelect_pending init_state_def)
  have ns: "\<not> isSaving ?s"
    by (simp add: onSelect_others init_state_def)
  have ok: "io_ok (env_ok 0)" by (simp add: io_ok_def env_ok_def)
  have e1: "step (Select [file_a, file_b]) init_sys = \<lparr>ui = ?s, tasks = []\<rparr>"
    by (simp add: init_sys_def init_state_def)
  have e2: "step ClickSave \<lparr>ui = ?s, tasks = []\<rparr> =
      \<lparr>ui = ?s\<lparr>isSaving := True\<rparr>, tasks = [\<lparr>closure = [a, b], rest = [a, b]\<rparr>]\<rparr>"
    using ns by (simp add: button_disabled_def canSave_def onSave_begin_def ab)
  have e3: "step ClickSave \<lparr>ui = ?s\<lparr>isSaving := True\<rparr>, tasks = ts\<rparr> =
      \<lparr>ui = ?s\<lparr>isSaving := True\<rparr>, tasks = ts\<rparr>" for ts
    by (simp add: button_disabled_def canSave_def)
  have e4: "tasks (step (SaveProgress 0 (env_ok 0))
        \<lparr>ui = ?s\<lparr>isSaving := True\<rparr>, tasks = [\<lparr>closure = [a, b], rest = [a, b]\<rparr>]\<rparr>) =
      [\<lparr>closure = [a, b], rest = [b]\<rparr>]"
    by (simp add: save_progress_def save_item_ok [OF ok])
  have "run [Select [file_a, file_b], ClickSave, ClickSave, SaveProgress 0 (env_ok 0)] init_sys =
      step (SaveProgress 0 (env_ok 0))
        (step ClickSave (step ClickSave (step (Select [file_a, file_b]) init_sys)))"
    by (simp only: run_def fold_Cons fold_Nil o_apply id_apply)
  then show ?thesis
    by (simp only: e1 e2 e3 e4 ab list.sel)
qed

theorem save_is_exclusive_witness:
  "fst (onSave env_fail_second three_pending) \<noteq> None \<and>
   length (tasks (run [Select [file_a, file_b], ClickSave, ClickSave,
      SaveProgress 0 (env_ok 0)] init_sys)) = 1 \<and>
   isSaving (ui (run [Select [file_a, file_b], ClickSave, ClickSave,
      SaveProgress 0 (env_ok 0)] init_sys)) \<and>
   button_disabled (snd (onSave env_fail_second three_pending)) =
     (pending three_pending = []) \<and>
   \<not> isSaving (snd (onSave env_fail_second three_pending)) \<and>
   save_label (snd (onSave env_fail_second three_pending)) = ''Save (3)''"
proof -
  have h1: "1 < length (pending three_pending)" by (simp add: three_pending_eq)
  have h2: "\<forall>j < 1. io_ok (env_fail_second j)"
    by (simp add: io_ok_def env_fail_second_def env_ok_def)
  have h3: "\<not> io_ok (env_fail_second 1)"
    by (simp add: io_ok_def env_fail_second_def env_ok_def)
  have h: "fst (onSave env_fail_second three_pending) \<noteq> None"
    by (rule onSave_fail_fields(1) [OF h1 h2 h3])
  have "length (pending three_pending) = 3" by (simp add: three_pending_eq)
  then have n: "decimal (length (pending three_pending)) = ''3''"
    by (simp only: decimal_3)
  have p: "pending (snd (onSave env_fail_second three_pending)) = pending three_pending"
    by (rule onSave_fail_fields(2) [OF h1 h2 h3])
  note t = save_is_exclusive [OF h,
      where evs = "[Select [file_a, file_b], ClickSave, ClickSave, SaveProgress 0 (env_ok 0)]"
        and s' = "snd (onSave env_fail_second three_pending)"]
  show ?thesis
    using t h by (simp add: two_clicks n p)
qed

section \<open>Properties of the geometry adapter\<close>

lemma stored_simps:
  "stored None = Fin 0"
  "stored (Some EmptyStr) = Fin 0"
  "stored (Some OtherStr) = Fin 0"
  "stored (Some (js_String n)) = num_or n (Fin 0)"
  by (auto simp: stored_def str_or_def num_or_def js_String_def)

lemma num_or_simps:
  "num_or NaN d = d" "num_or (Fin 0) d = d" "num_or PosInf d = PosInf" "num_or NegInf d = NegInf"
  "r \<noteq> 0 \<Longrightarrow> num_or (Fin r) d = Fin r"
  by (simp_all add: num_or_def)

lemma stored_not_NaN: "stored v \<noteq> NaN"
proof (cases v)
  case None
  then show ?thesis by (simp add: stored_simps)
next
  case (Some t)
  then show ?thesis
    by (cases t) (auto simp: stored_def str_or_def num_or_def js_String_def)
qed

lemma overflow_bound_big: "2 ^ 53 < overflow_bound"
  by (simp add: overflow_bound_def)

lemma jsadd_small:
  assumes "\<bar>a + b\<bar> < 2 ^ 53"
  shows "jsadd (Fin a) (Fin b) = Fin (a + b)"
  using assms overflow_bound_big by (auto simp: abs_less_iff)

lemma jsadd_NaN: "jsadd v NaN = NaN"
  by (cases v) simp_all

lemma fresh_element_eq:
  "fresh_element = \<lparr>style_width = 260, style_height = 173, translate = (Fin 0, Fin 0),
     dataset_x = Some (js_String (Fin 0)), dataset_y = Some (js_String (Fin 0))\<rparr>"
  by (simp add: fresh_element_def init_element_def)

lemma fresh_element_is_first_item:
  "fresh_element = init_element (item_props (hd (pending (onSelect [] [file_a] init_state))))"
  by (simp add: fresh_element_def onSelect_pending item_props_def image_file_a baseH_a)
     (simp add: init_state_def)

lemma fresh_client: "clientWidth fresh_element = 258" "clientHeight fresh_element = 171"
  by (simp_all add: fresh_element_eq clientWidth_def clientHeight_def border_width_def)

lemma drag_one:
  "drag_gesture [\<lparr>dx = Some a, dy = Some b\<rparr>] fresh_element =
     \<lparr>lx = num_or (jsadd (Fin 0) a) (Fin 0), ly = num_or (jsadd (Fin 0) b) (Fin 0),
      lw = 258, lh = 171\<rparr>"
  by (simp add: drag_gesture_def drag_move_def drag_end_def fresh_element_eq stored_simps
      num_or_simps nullish_def clientWidth_def clientHeight_def border_width_def Let_def)

subsection \<open>What a gesture reports\<close>

lemma fold_drag_size:
  "style_width (fold drag_move evs el) = style_width el \<and>
   style_height (fold drag_move evs el) = style_height el"
  by (induction evs arbitrary: el) (simp_all add: drag_move_def Let_def)

lemma drag_gesture_size:
  "lw (drag_gesture evs el) = clientWidth el" "lh (drag_gesture evs el) = clientHeight el"
  by (simp_all add: drag_gesture_def drag_end_def clientWidth_def clientHeight_def fold_drag_size)

lemma drag_gesture_start:
  "lx (drag_gesture [] el) = stored (dataset_x el)" "ly (drag_gesture [] el) = stored (dataset_y el)"
  by (simp_all add: drag_gesture_def drag_end_def)

lemma drag_gesture_snoc:
  "lx (drag_gesture (evs @ [ev]) el) =
     num_or (jsadd (lx (drag_gesture evs el)) (nullish (dx ev) (Fin 0))) (Fin 0)"
  "ly (drag_gesture (evs @ [ev]) el) =
     num_or (jsadd (ly (drag_gesture evs el)) (nullish (dy ev) (Fin 0))) (Fin 0)"
  by (simp_all add: drag_gesture_def drag_end_def drag_move_def stored_simps Let_def)

lemma resize_gesture_start:
  "lx (resize_gesture [] el) = stored (dataset_x el)"
  "ly (resize_gesture [] el) = stored (dataset_y el)"
  "lw (resize_gesture [] el) = clientWidth el"
  "lh (resize_gesture [] el) = clientHeight el"
  by (simp_all add: resize_gesture_def resize_end_def)

lemma resize_gesture_snoc:
  "lx (resize_gesture (evs @ [ev]) el) =
     num_or (jsadd (lx (resize_gesture evs el))
       (opt_num_or (map_option dleft (deltaRect ev)) (Fin 0))) (Fin 0)"
  "ly (resize_gesture (evs @ [ev]) el) =
     num_or (jsadd (ly (resize_gesture evs el))
       (opt_num_or (map_option dtop (deltaRect ev)) (Fin 0))) (Fin 0)"
  "lw (resize_gesture (evs @ [ev]) el) = round (max 0 (max 80 (width (rect ev)) - 2))"
  "lh (resize_gesture (evs @ [ev]) el) = round (max 0 (max 80 (height (rect ev)) - 2))"
  by (simp_all add: resize_gesture_def resize_end_def resize_move_def stored_simps Let_def
      clientWidth_def clientHeight_def border_width_def)

text \<open>After a resize move the element has the size of the event's rectangle, at least 80;
  what the end listener reports is the size within the border.\<close>

lemma fold_resize_size:
  assumes "evs \<noteq> []"
  shows "style_width (fold resize_move evs el) = max 80 (width (rect (last evs))) \<and>
    style_height (fold resize_move evs el) = max 80 (height (rect (last evs)))"
  using assms
proof (induction evs arbitrary: el rule: rev_induct)
  case Nil
  then show ?case by simp
next
  case (snoc ev evs)
  show ?case by (simp add: resize_move_def Let_def)
qed

lemma resize_gesture_min:
  assumes "evs \<noteq> []"
  shows "78 \<le> lw (resize_gesture evs el)" and "78 \<le> lh (resize_gesture evs el)"
proof -
  have "(78::real) \<le> max 0 (max 80 r - 2)" for r :: real by simp
  then have "round (78::real) \<le> round (max 0 (max 80 r - 2))" for r :: real by (rule round_mono)
  then have "78 \<le> round (max 0 (max 80 r - 2))" for r :: real by simp
  then show "78 \<le> lw (resize_gesture evs el)" and "78 \<le> lh (resize_gesture evs el)"
    using fold_resize_size [OF assms, of el]
    by (simp_all add: resize_gesture_def resize_end_def clientWidth_def clientHeight_def
        border_width_def)
qed

subsection \<open>The claims about gestures\<close>

lemma mods_restrict:
  "RestrictEdges_outer_parent \<in> set (mods sn)" "RestrictSize_min 80 80 \<in> set (mods sn)"
  "(Snap_grid 8 8 8 \<in> set (mods sn)) = sn"
  by (simp_all add: mods_def Let_def)

text \<open>
  C4. In \<^verbatim>\<open>src/components/ResizeableDraggableItem.tsx\<close> the drag interaction is set up
  with no modifier at all, while its resize interaction and both interactions of
  \<^verbatim>\<open>page.tsx\<close> get the restriction to the parent and the minimum size, whatever the snap
  setting. Every move that interact.js delivers is added to the position as it is: a drag
  by \<open>-100\<close> from the origin ends at \<open>x = -100\<close>, outside any parent. (After a resize move
  the element is at least 80 wide and high; the client size that the end listener reports
  is the size within the border, at least 78.)
\<close>

theorem component_drag_unrestricted:
  "modifiers component_draggable = [] \<and>
   RestrictEdges_outer_parent \<in> set (modifiers component_resizable) \<and>
   RestrictSize_min 80 80 \<in> set (modifiers component_resizable) \<and>
   RestrictEdges_outer_parent \<in> set (modifiers (page_draggable sn)) \<and>
   RestrictSize_min 80 80 \<in> set (modifiers (page_draggable sn)) \<and>
   RestrictEdges_outer_parent \<in> set (modifiers (page_resizable sn)) \<and>
   RestrictSize_min 80 80 \<in> set (modifiers (page_resizable sn)) \<and>
   80 \<le> style_width (fold resize_move (rv # revs) el) \<and>
   80 \<le> style_height (fold resize_move (rv # revs) el) \<and>
   78 \<le> lw (resize_gesture (rv # revs) el) \<and>
   78 \<le> lh (resize_gesture (rv # revs) el) \<and>
   drag_gesture [\<lparr>dx = Some (Fin (- 100)), dy = Some (Fin 0)\<rparr>] fresh_element =
     \<lparr>lx = Fin (- 100), ly = Fin 0, lw = 258, lh = 171\<rparr> \<and>
   \<not> within_parent W H \<lparr>lx = Fin (- 100), ly = Fin 0, lw = 258, lh = 171\<rparr>"
proof -
  have ne: "rv # revs \<noteq> []" by simp
  have a: "jsadd (Fin 0) (Fin (- 100)) = Fin (- 100)" "jsadd (Fin 0) (Fin 0) = Fin 0"
    using overflow_bound_big by simp_all
  have s: "80 \<le> style_width (fold resize_move (rv # revs) el) \<and>
      80 \<le> style_height (fold resize_move (rv # revs) el)"
    by (simp only: fold_resize_size [OF ne]) simp
  show ?thesis
    using resize_gesture_min [OF ne, of el] s
    by (simp add: component_draggable_def component_resizable_def page_draggable_def
        page_resizable_def mods_restrict drag_one a num_or_simps within_parent_def
        del: jsadd.simps)
qed

text \<open>
  C5, as stated, fails, for each of \<open>x\<close>, \<open>y\<close>, \<open>w\<close> and \<open>h\<close>. With snapping on, a drag of
  the first item by \<open>(8, 8)\<close> reports the client size of the element, 258 by 171; a first
  move of \<open>(6, 5.3125)\<close> is reported as \<open>x = 6\<close>, \<open>y = 5.3125\<close>; and a resize to a rectangle
  on the grid, 264 by 176, is reported as 262 by 174.
\<close>

theorem snap_not_on_grid:
  "Snap_grid 8 8 8 \<in> set (modifiers (page_draggable True)) \<and>
   Snap_grid 8 8 8 \<in> set (modifiers (page_resizable True)) \<and>
   fresh_element = init_element (item_props (hd (pending (onSelect [] [file_a] init_state)))) \<and>
   drag_gesture [drag_by_8] fresh_element = \<lparr>lx = Fin 8, ly = Fin 8, lw = 258, lh = 171\<rparr> \<and>
   \<not> 8 dvd lw (drag_gesture [drag_by_8] fresh_element) \<and>
   \<not> 8 dvd lh (drag_gesture [drag_by_8] fresh_element) \<and>
   drag_gesture [drag_off_grid] fresh_element =
     \<lparr>lx = Fin 6, ly = Fin (85 / 16), lw = 258, lh = 171\<rparr> \<and>
   \<not> multiple_of 8 (lx (drag_gesture [drag_off_grid] fresh_element)) \<and>
   \<not> multiple_of 8 (ly (drag_gesture [drag_off_grid] fresh_element)) \<and>
   resize_gesture [resize_to_grid] fresh_element =
     \<lparr>lx = Fin 0, ly = Fin 0, lw = 262, lh = 174\<rparr> \<and>
   \<not> 8 dvd lw (resize_gesture [resize_to_grid] fresh_element) \<and>
   \<not> 8 dvd lh (resize_gesture [resize_to_grid] fresh_element)"
proof -
  have a: "jsadd (Fin 0) (Fin 8) = Fin 8" "jsadd (Fin 0) (Fin 6) = Fin 6"
    "jsadd (Fin 0) (Fin (85 / 16)) = Fin (85 / 16)" "jsadd (Fin 0) (Fin 0) = Fin 0"
    using overflow_bound_big by simp_all
  have d1: "drag_gesture [drag_by_8] fresh_element = \<lparr>lx = Fin 8, ly = Fin 8, lw = 258, lh = 171\<rparr>"
    by (simp add: drag_by_8_def drag_one a num_or_simps del: jsadd.simps)
  have d2: "drag_gesture [drag_off_grid] fresh_element =
      \<lparr>lx = Fin 6, ly = Fin (85 / 16), lw = 258, lh = 171\<rparr>"
    by (simp add: drag_off_grid_def drag_one a num_or_simps del: jsadd.simps)
  have r: "resize_gesture [resize_to_grid] fresh_element =
      \<lparr>lx = Fin 0, ly = Fin 0, lw = 262, lh = 174\<rparr>"
    by (simp add: resize_gesture_def resize_move_def resize_end_def resize_to_grid_def
        fresh_element_eq stored_simps num_or_simps opt_num_or_def a Let_def clientWidth_def
        clientHeight_def border_width_def del: jsadd.simps)
  have m: "\<not> multiple_of 8 (Fin 6)" "\<not> multiple_of 8 (Fin (85 / 16))"
    by (simp_all add: multiple_of_def)
  show ?thesis
    using fresh_element_is_first_item m
    by (simp add: d1 d2 r page_draggable_def page_resizable_def mods_restrict)
qed

text \<open>
  C5, amended. With snapping on (and only then) the grid of 8 with range 8 is among the
  modifiers of both interactions. The adapter rounds nothing. The \<open>x\<close> and \<open>y\<close> reported
  at the end of a gesture are the stored position to which every delivered delta has been
  added in turn, zero standing for a missing delta and for a sum that is NaN or zero. The
  \<open>w\<close> and \<open>h\<close> reported are the client size of the element: after a drag the one it had,
  after a resize the size of the last rectangle delivered, at least 80, less the border.
\<close>

theorem snap_passes_through:
  "modifiers (page_draggable sn) = mods sn \<and>
   modifiers (page_resizable sn) = mods sn \<and>
   (Snap_grid 8 8 8 \<in> set (mods sn)) = sn \<and>
   lx (drag_gesture [] el) = stored (dataset_x el) \<and>
   ly (drag_gesture [] el) = stored (dataset_y el) \<and>
   lx (drag_gesture (evs @ [ev]) el) =
     num_or (jsadd (lx (drag_gesture evs el)) (nullish (dx ev) (Fin 0))) (Fin 0) \<and>
   ly (drag_gesture (evs @ [ev]) el) =
     num_or (jsadd (ly (drag_gesture evs el)) (nullish (dy ev) (Fin 0))) (Fin 0) \<and>
   lw (drag_gesture evs el) = clientWidth el \<and>
   lh (drag_gesture evs el) = clientHeight el \<and>
   lx (resize_gesture [] el) = stored (dataset_x el) \<and>
   ly (resize_gesture [] el) = stored (dataset_y el) \<and>
   lx (resize_gesture (revs @ [rv]) el) =
     num_or (jsadd (lx (resize_gesture revs el))
       (opt_num_or (map_option dleft (deltaRect rv)) (Fin 0))) (Fin 0) \<and>
   ly (resize_gesture (revs @ [rv]) el) =
     num_or (jsadd (ly (resize_gesture revs el))
       (opt_num_or (map_option dtop (deltaRect rv)) (Fin 0))) (Fin 0) \<and>
   lw (resize_gesture [] el) = clientWidth el \<and>
   lh (resize_gesture [] el) = clientHeight el \<and>
   lw (resize_gesture (revs @ [rv]) el) = round (max 0 (max 80 (width (rect rv)) - 2)) \<and>
   lh (resize_gesture (revs @ [rv]) el) = round (max 0 (max 80 (height (rect rv)) - 2))"
proof -
  have c: "modifiers (page_draggable sn) = mods sn" "modifiers (page_resizable sn) = mods sn"
    by (simp_all add: page_draggable_def page_resizable_def)
  show ?thesis
    by (intro conjI; (rule c mods_restrict drag_gesture_start drag_gesture_snoc drag_gesture_size
          resize_gesture_start resize_gesture_snoc))
qed

text \<open>
  C9, as stated, fails: an infinite \<^verbatim>\<open>dx\<close> is not coerced. It is added to the stored
  coordinate, written to the data attribute and reported at the end of the gesture. Two
  finite moves by \<^verbatim>\<open>Number.MAX_VALUE\<close> are reported as Infinity too.
\<close>

theorem infinite_delta_reported:
  "dataset_x (drag_move drag_infinite fresh_element) = Some (js_String PosInf) \<and>
   lx (drag_gesture [drag_infinite] fresh_element) = PosInf \<and>
   \<not> is_finite (lx (drag_gesture [drag_infinite] fresh_element)) \<and>
   lx (drag_gesture [drag_max, drag_max] fresh_element) = PosInf"
proof -
  have a: "dataset_x (drag_move drag_infinite fresh_element) = Some (js_String PosInf)"
    by (simp add: drag_infinite_def drag_move_def fresh_element_eq stored_simps num_or_simps
        nullish_def Let_def)
  have b: "lx (drag_gesture [drag_infinite] fresh_element) = PosInf"
    by (simp add: drag_infinite_def drag_one num_or_simps)
  have z: "max_value \<noteq> 0"
    by (simp add: max_value_def)
  have m1: "jsadd (Fin 0) (Fin max_value) = Fin max_value"
    by (simp add: max_value_def overflow_bound_def)
  have m2: "jsadd (Fin max_value) (Fin max_value) = PosInf"
    by (simp add: max_value_def overflow_bound_def)
  have "lx (drag_gesture ([] @ [drag_max]) fresh_element) = Fin max_value"
    unfolding drag_gesture_snoc drag_gesture_start
    by (simp add: fresh_element_eq stored_simps num_or_simps drag_max_def nullish_def m1 z
        del: jsadd.simps)
  then have "lx (drag_gesture ([drag_max] @ [drag_max]) fresh_element) = PosInf"
    unfolding drag_gesture_snoc [of "[drag_max]"]
    by (simp add: num_or_simps drag_max_def nullish_def m2 del: jsadd.simps)
  then have c: "lx (drag_gesture [drag_max, drag_max] fresh_element) = PosInf"
    by simp
  show ?thesis
    using a b c by (simp add: is_finite_def)
qed

lemma nan_delta:
  "dataset_x (drag_move \<lparr>dx = Some NaN, dy = dv\<rparr> el') = Some (js_String NaN)"
  "lx (drag_gesture [\<lparr>dx = Some NaN, dy = dv\<rparr>] el') = Fin 0"
proof -
  show "dataset_x (drag_move \<lparr>dx = Some NaN, dy = dv\<rparr> el') = Some (js_String NaN)"
    by (simp add: drag_move_def nullish_def jsadd_NaN Let_def)
  then show "lx (drag_gesture [\<lparr>dx = Some NaN, dy = dv\<rparr>] el') = Fin 0"
    by (simp add: drag_gesture_def drag_end_def stored_simps num_or_simps)
qed

text \<open>
  C9, amended. A missing \<^verbatim>\<open>dx\<close> or \<^verbatim>\<open>dy\<close> counts as zero, and so do a missing
  \<^verbatim>\<open>deltaRect\<close> and a NaN offset of it; a stored coordinate that is absent, empty,
  unparseable or NaN is read as zero. The listeners are total, and the \<open>x\<close> and \<open>y\<close> they
  report are never NaN: a NaN \<^verbatim>\<open>dx\<close> is recorded as NaN and read back as zero. An infinite
  stored coordinate is read as it is: the reported \<open>x\<close> and \<open>y\<close> need not be finite.
\<close>

theorem malformed_values_read_as_zero:
  "drag_move \<lparr>dx = None, dy = None\<rparr> el =
     drag_move \<lparr>dx = Some (Fin 0), dy = Some (Fin 0)\<rparr> el \<and>
   resize_move \<lparr>rect = r, deltaRect = None\<rparr> el =
     resize_move \<lparr>rect = r, deltaRect = Some \<lparr>dleft = Fin 0, dtop = Fin 0\<rparr>\<rparr> el \<and>
   resize_move \<lparr>rect = r, deltaRect = Some \<lparr>dleft = NaN, dtop = NaN\<rparr>\<rparr> el =
     resize_move \<lparr>rect = r, deltaRect = Some \<lparr>dleft = Fin 0, dtop = Fin 0\<rparr>\<rparr> el \<and>
   stored None = Fin 0 \<and>
   stored (Some EmptyStr) = Fin 0 \<and>
   stored (Some OtherStr) = Fin 0 \<and>
   stored (Some (js_String NaN)) = Fin 0 \<and>
   stored (Some (js_String PosInf)) = PosInf \<and>
   stored (Some (js_String NegInf)) = NegInf \<and>
   dataset_x (drag_move \<lparr>dx = Some NaN, dy = dv\<rparr> el) = Some (js_String NaN) \<and>
   lx (drag_gesture [\<lparr>dx = Some NaN, dy = dv\<rparr>] el) = Fin 0 \<and>
   lx (drag_gesture evs el) \<noteq> NaN \<and>
   ly (drag_gesture evs el) \<noteq> NaN \<and>
   lx (resize_gesture revs el) \<noteq> NaN \<and>
   ly (resize_gesture revs el) \<noteq> NaN"
proof -
  have m: "drag_move \<lparr>dx = None, dy = None\<rparr> el =
      drag_move \<lparr>dx = Some (Fin 0), dy = Some (Fin 0)\<rparr> el"
    by (simp add: drag_move_def nullish_def)
  have r1: "resize_move \<lparr>rect = r, deltaRect = None\<rparr> el =
      resize_move \<lparr>rect = r, deltaRect = Some \<lparr>dleft = Fin 0, dtop = Fin 0\<rparr>\<rparr> el"
    by (simp add: resize_move_def opt_num_or_def num_or_def)
  have r2: "resize_move \<lparr>rect = r, deltaRect = Some \<lparr>dleft = NaN, dtop = NaN\<rparr>\<rparr> el =
      resize_move \<lparr>rect = r, deltaRect = Some \<lparr>dleft = Fin 0, dtop = Fin 0\<rparr>\<rparr> el"
    by (simp add: resize_move_def opt_num_or_def num_or_def)
  note q = nan_delta [of dv el]
  have n: "lx (drag_gesture evs el) \<noteq> NaN" "ly (drag_gesture evs el) \<noteq> NaN"
    "lx (resize_gesture revs el) \<noteq> NaN" "ly (resize_gesture revs el) \<noteq> NaN"
    by (simp_all add: drag_gesture_def drag_end_def resize_gesture_def resize_end_def
        stored_not_NaN)
  show ?thesis
    by (intro conjI; (rule m r1 r2 q n)?) (simp_all add: stored_simps num_or_simps)
qed

section \<open>Preview URLs of the states the page reaches\<close>

lemma previewUrl_update:
  "map previewUrl (ps[i := (ps ! i)\<lparr>px := a, py := b, pw := c, ph := d\<rparr>]) = map previewUrl ps"
  by (cases "i < length ps") (simp_all add: map_update list_update_same_conv list_update_beyond)

lemma urls_select:
  assumes "urls_ok s"
  shows "urls_ok (onSelect (pending s) files s)"
proof -
  let ?s' = "onSelect (pending s) files s"
  let ?new = "map (\<lambda>i. created s + 2 * i) [0..<length files]"
  have e: "map fst (enumerate 0 files) = [0..<length files]"
    by (simp add: enumerate_eq_zip)
  have n: "map (\<lambda>x. created s + 2 * fst x) (enumerate 0 files) = ?new"
    using map_map [of "\<lambda>i. created s + 2 * i" fst "enumerate 0 files"]
    unfolding e o_def by (rule sym)
  have m: "map previewUrl (pending ?s') = map previewUrl (pending s) @ ?new"
    by (simp add: onSelect_pending case_prod_unfold o_def n)
  have d: "distinct ?new"
    by (simp add: distinct_map inj_on_def)
  have g: "\<forall>u \<in> set ?new. created s \<le> u \<and> u < created s + 2 * length files"
    by auto
  have old: "\<forall>u \<in> set (map previewUrl (pending s)). u \<notin> set (revoked s) \<and> u < created s"
    using assms by (simp add: urls_ok_def)
  have rv: "\<forall>u \<in> set (revoked s). u < created s"
    using assms by (simp add: urls_ok_def)
  have ds: "distinct (map previewUrl (pending s))"
    using assms by (simp add: urls_ok_def)
  have s1: "set (map previewUrl (pending s)) \<inter> set ?new = {}"
    using old g by fastforce
  have new: "\<forall>u \<in> set ?new. u \<notin> set (revoked s)"
    using rv g by fastforce
  have A: "distinct (map previewUrl (pending ?s'))"
    unfolding m using ds d s1 by simp
  have "\<forall>u \<in> set (map previewUrl (pending ?s')).
      u \<notin> set (revoked s) \<and> u < created s + 2 * length files"
    unfolding m using old new g by fastforce
  then have B: "\<forall>p \<in> set (pending ?s').
      previewUrl p \<notin> set (revoked ?s') \<and> previewUrl p < created ?s'"
    by (simp add: onSelect_others)
  have C: "\<forall>u \<in> set (revoked ?s'). u < created ?s'"
    using rv by (fastforce simp: onSelect_others)
  show ?thesis unfolding urls_ok_def using A B C by blast
qed

lemma urls_remove:
  assumes "urls_ok s"
  shows "urls_ok (removeOne idx s)"
proof (cases "idx < length (pending s)")
  case False
  then show ?thesis using assms by (simp add: removeOne_def)
next
  case True
  let ?us = "map previewUrl (pending s)"
  let ?s' = "removeOne idx s"
  have i: "idx < length ?us" using True by simp
  have ds: "distinct ?us" using assms by (simp add: urls_ok_def)
  have "distinct (take idx ?us @ ?us ! idx # drop (Suc idx) ?us)"
    using ds id_take_nth_drop [OF i] by simp
  then have d: "distinct (take idx ?us @ drop (Suc idx) ?us)"
    and u: "?us ! idx \<notin> set (take idx ?us @ drop (Suc idx) ?us)"
    by auto
  have sub: "set (take idx ?us @ drop (Suc idx) ?us) \<subseteq> set ?us"
    by (auto dest: in_set_takeD in_set_dropD)
  have m: "map previewUrl (pending ?s') = take idx ?us @ drop (Suc idx) ?us"
    using True by (simp add: removeOne_def take_map drop_map)
  have r: "revoked ?s' = revoked s @ [?us ! idx]" "created ?s' = created s"
    using True by (simp_all add: removeOne_def)
  have old: "\<forall>v \<in> set ?us. v \<notin> set (revoked s) \<and> v < created s"
    using assms by (simp add: urls_ok_def)
  have rv: "\<forall>u \<in> set (revoked s). u < created s"
    using assms by (simp add: urls_ok_def)
  have A: "distinct (map previewUrl (pending ?s'))"
    unfolding m by (rule d)
  have "\<forall>v \<in> set (map previewUrl (pending ?s')). v \<notin> set (revoked ?s') \<and> v < created ?s'"
    unfolding m r using old u sub by auto
  then have B: "\<forall>p \<in> set (pending ?s').
      previewUrl p \<notin> set (revoked ?s') \<and> previewUrl p < created ?s'"
    by simp
  have "?us ! idx \<in> set ?us" using i by (rule nth_mem)
  then have C: "\<forall>v \<in> set (revoked ?s'). v < created ?s'"
    unfolding r using rv old by auto
  show ?thesis unfolding urls_ok_def using A B C by blast
qed

lemma urls_change:
  assumes "urls_ok s" and "onChange idx nl s = Some s'"
  shows "urls_ok s'"
  using assms
  by (auto simp: urls_ok_def onChange_def previewUrl_update split: if_splits
      dest!: set_update_subset_insert [THEN subsetD])

lemma urls_fields:
  assumes "urls_ok s"
    and "pending s' = pending s" and "revoked s' = revoked s" and "created s' = created s"
  shows "urls_ok s'"
  using assms by (simp add: urls_ok_def)

lemma urls_finish:
  assumes "urls_ok s" and "\<forall>p \<in> set c. previewUrl p < created s"
  shows "urls_ok (onSave_finish c (s\<lparr>store := r\<rparr>))"
  using assms by (auto simp: urls_ok_def onSave_finish_def revokeAll_def)

text \<open>In every state the page reaches, whatever the order of its events.\<close>

lemma step_urls:
  assumes "urls_ok (ui y)"
    and "\<forall>t \<in> set (tasks y). \<forall>p \<in> set (closure t). previewUrl p < created (ui y)"
  shows "urls_ok (ui (step ev y)) \<and>
    (\<forall>t \<in> set (tasks (step ev y)). \<forall>p \<in> set (closure t). previewUrl p < created (ui (step ev y)))"
proof (cases ev)
  case ClickSave
  have "\<forall>p \<in> set (pending (ui y)). previewUrl p < created (ui y)"
    using assms(1) by (simp add: urls_ok_def)
  then show ?thesis
    using assms ClickSave by (auto simp: onSave_begin_def intro: urls_fields)
next
  case (SaveProgress k e)
  show ?thesis
  proof (cases "k < length (tasks y)")
    case False
    then show ?thesis using assms SaveProgress by (simp add: save_progress_def)
  next
    case True
    then have tk: "tasks y ! k \<in> set (tasks y)" by (rule nth_mem)
    then have ck: "\<forall>p \<in> set (closure (tasks y ! k)). previewUrl p < created (ui y)"
      using assms(2) by blast
    have dr: "\<forall>t \<in> set (drop_task k (tasks y)). \<forall>p \<in> set (closure t).
        previewUrl p < created (ui y)"
      using assms(2) by (auto simp: drop_task_def dest: in_set_takeD in_set_dropD)
    have up: "\<forall>t \<in> set ((tasks y)[k := (tasks y ! k)\<lparr>rest := ps\<rparr>]). \<forall>p \<in> set (closure t).
        previewUrl p < created (ui y)" for ps
      using assms(2) ck by (auto dest!: set_update_subset_insert [THEN subsetD])
    show ?thesis
    proof (cases "rest (tasks y ! k)")
      case Nil
      then show ?thesis using assms SaveProgress True by (simp add: save_progress_def)
    next
      case (Cons p ps)
      obtain res r' where it: "save_item e p (store (ui y)) = (res, r')"
        by (cases "save_item e p (store (ui y))")
      show ?thesis
      proof (cases res)
        case (Some err)
        have "urls_ok (onSave_abort ((ui y)\<lparr>store := r'\<rparr>))"
          using assms(1) by (rule urls_fields) (simp_all add: onSave_abort_def)
        then show ?thesis
          using dr by (simp add: SaveProgress save_progress_def True Cons it Some
              onSave_abort_def)
      next
        case None
        show ?thesis
        proof (cases "ps = []")
          case e: True
          have "urls_ok (onSave_finish (closure (tasks y ! k)) ((ui y)\<lparr>store := r'\<rparr>))"
            using assms(1) ck by (rule urls_finish)
          then show ?thesis
            using dr by (simp add: SaveProgress save_progress_def True Cons it None e
                onSave_finish_def revokeAll_def)
        next
          case ne: False
          have "urls_ok ((ui y)\<lparr>store := r'\<rparr>)"
            using assms(1) by (rule urls_fields) simp_all
          then show ?thesis
            using up [of ps] by (simp add: SaveProgress save_progress_def True Cons it None ne)
        qed
      qed
    qed
  qed
next
  case (Select files)
  then show ?thesis
    using urls_select [OF assms(1), of files] assms(2) by (fastforce simp: onSelect_others)
next
  case (Remove idx)
  have "created (removeOne idx (ui y)) = created (ui y)" by (simp add: removeOne_def)
  then show ?thesis
    using urls_remove [OF assms(1), of idx] assms(2) Remove by simp
next
  case (GestureEnd idx nl)
  show ?thesis
  proof (cases "onChange idx nl (ui y)")
    case None
    then show ?thesis using assms GestureEnd by simp
  next
    case (Some s')
    have "created s' = created (ui y)" using Some by (auto simp: onChange_def split: if_splits)
    then show ?thesis
      using urls_change [OF assms(1) Some] assms(2) GestureEnd Some by simp
  qed
next
  case (SetSnap b)
  have "urls_ok ((ui y)\<lparr>snap := b\<rparr>)"
    using assms(1) by (rule urls_fields) simp_all
  then show ?thesis using assms(2) SetSnap by simp
qed

lemma fold_urls:
  assumes "urls_ok (ui y)"
    and "\<forall>t \<in> set (tasks y). \<forall>p \<in> set (closure t). previewUrl p < created (ui y)"
  shows "urls_ok (ui (fold step evs y))"
  using assms
proof (induction evs arbitrary: y)
  case Nil
  then show ?case by simp
next
  case (Cons ev evs)
  note s = step_urls [OF Cons.prems, of ev]
  have "urls_ok (ui (fold step evs (step ev y)))"
    using s by (intro Cons.IH) blast+
  then show ?case by simp
qed

lemma run_urls: "urls_ok (ui (run evs init_sys))"
  unfolding run_def
  by (rule fold_urls) (simp_all add: init_sys_def init_state_def urls_ok_def)

lemma reachable_urls:
  assumes "reachable s"
  shows "urls_ok s"
  using assms
proof (induction rule: reachable.induct)
  case init
  then show ?case by (simp add: init_state_def urls_ok_def)
next
  case (select s files)
  then show ?case by (simp add: urls_select)
next
  case (remove s idx)
  then show ?case by (simp add: urls_remove)
next
  case (change s idx nl s')
  then show ?case using urls_change by blast
next
  case (save s env)
  have "pending (snd (onSave env s)) = pending s \<and> revoked (snd (onSave env s)) = revoked s
      \<or> pending (snd (onSave env s)) = [] \<and>
        revoked (snd (onSave env s)) = revoked s @ map previewUrl (pending s)"
    by (auto simp: onSave_def onSave_finish_def onSave_abort_def revokeAll_def Let_def
        split: prod.splits option.splits)
  moreover have "created (snd (onSave env s)) = created s"
    by (auto simp: onSave_def onSave_finish_def onSave_abort_def revokeAll_def Let_def
        split: prod.splits option.splits)
  ultimately show ?case using save.IH by (auto simp: urls_ok_def)
next
  case (snap s b)
  then show ?case by (simp add: urls_ok_def)
qed

section \<open>A save among other events\<close>

text \<open>While a save is running, an event of the user leaves the running saves, the save flag
  and the remote store as they are, and does not depend on them.\<close>

lemma user_step_frame:
  assumes "user_event ev" and "isSaving u"
  shows "step ev \<lparr>ui = u\<lparr>store := r\<rparr>, tasks = ts\<rparr> =
      \<lparr>ui = (ui (step ev \<lparr>ui = u, tasks = []\<rparr>))\<lparr>store := r\<rparr>, tasks = ts\<rparr>"
    and "isSaving (ui (step ev \<lparr>ui = u, tasks = []\<rparr>))"
    and "store (ui (step ev \<lparr>ui = u, tasks = []\<rparr>)) = store u"
    and "tasks (step ev \<lparr>ui = u, tasks = []\<rparr>) = []"
  using assms
  by (cases ev; simp add: user_event_def button_disabled_def canSave_def onSelect_def
      select_loop_eq removeOne_def onChange_def)+

lemma user_fold_frame:
  assumes "\<forall>ev \<in> set evs. user_event ev" and "isSaving u"
  shows "fold step evs \<lparr>ui = u\<lparr>store := r\<rparr>, tasks = ts\<rparr> =
      \<lparr>ui = (ui (fold step evs \<lparr>ui = u, tasks = []\<rparr>))\<lparr>store := r\<rparr>, tasks = ts\<rparr> \<and>
    isSaving (ui (fold step evs \<lparr>ui = u, tasks = []\<rparr>)) \<and>
    store (ui (fold step evs \<lparr>ui = u, tasks = []\<rparr>)) = store u \<and>
    tasks (fold step evs \<lparr>ui = u, tasks = []\<rparr>) = []"
  using assms
proof (induction evs arbitrary: u)
  case Nil
  then show ?case by simp
next
  case (Cons ev evs)
  have ue: "user_event ev" and rest: "\<forall>e \<in> set evs. user_event e"
    using Cons.prems(1) by simp_all
  note f = user_step_frame [OF ue Cons.prems(2)]
  obtain u' where s0: "step ev \<lparr>ui = u, tasks = []\<rparr> = \<lparr>ui = u', tasks = []\<rparr>"
    using f(4) by (cases "step ev \<lparr>ui = u, tasks = []\<rparr>") simp
  have s1: "step ev \<lparr>ui = u\<lparr>store := r\<rparr>, tasks = ts\<rparr> = \<lparr>ui = u'\<lparr>store := r\<rparr>, tasks = ts\<rparr>"
    using f(1) [of r ts] s0 by simp
  have sv: "isSaving u'" and st: "store u' = store u"
    using f(2,3) s0 by simp_all
  note ih = Cons.IH [OF rest sv]
  show ?case
    using ih st by (simp add: s0 s1)
qed

lemma user_fold_tasks:
  assumes "\<forall>ev \<in> set evs. user_event ev" and "isSaving u"
  shows "fold step evs \<lparr>ui = u, tasks = ts\<rparr> =
      \<lparr>ui = ui (fold step evs \<lparr>ui = u, tasks = []\<rparr>), tasks = ts\<rparr>"
proof -
  have "fold step evs \<lparr>ui = u\<lparr>store := store u\<rparr>, tasks = ts\<rparr> =
      \<lparr>ui = (ui (fold step evs \<lparr>ui = u, tasks = []\<rparr>))\<lparr>store := store u\<rparr>, tasks = ts\<rparr>"
    using user_fold_frame [OF assms] by blast
  moreover have "store (ui (fold step evs \<lparr>ui = u, tasks = []\<rparr>)) = store u"
    using user_fold_frame [OF assms] by blast
  ultimately show ?thesis by simp
qed

lemma user_fold_store:
  assumes "\<forall>ev \<in> set evs. user_event ev" and "isSaving u"
  shows "(ui (fold step evs \<lparr>ui = u\<lparr>store := r\<rparr>, tasks = []\<rparr>))\<lparr>store := r'\<rparr> =
      (ui (fold step evs \<lparr>ui = u, tasks = []\<rparr>))\<lparr>store := r'\<rparr>"
proof -
  have "fold step evs \<lparr>ui = u\<lparr>store := r\<rparr>, tasks = []\<rparr> =
      \<lparr>ui = (ui (fold step evs \<lparr>ui = u, tasks = []\<rparr>))\<lparr>store := r\<rparr>, tasks = []\<rparr>"
    using user_fold_frame [OF assms] by blast
  then show ?thesis by simp
qed

lemma progress_interleaved:
  assumes "ps \<noteq> []"
    and "\<forall>j < length ps. io_ok (env (i + j))"
    and "\<forall>j < length ps. \<forall>ev \<in> set (os (i + j)). user_event ev"
    and "isSaving u"
  shows "fold step (interleaved os env i (length ps))
       \<lparr>ui = u, tasks = [\<lparr>closure = c, rest = ps\<rparr>]\<rparr> =
     \<lparr>ui = onSave_finish c
        ((ui (fold step (concat (map os [i..<i + length ps])) \<lparr>ui = u, tasks = []\<rparr>))
           \<lparr>store := snd (save_loop env i ps (store u))\<rparr>),
      tasks = []\<rparr>"
  using assms
proof (induction ps arbitrary: i u)
  case Nil
  then show ?case by simp
next
  case (Cons p ps)
  let ?t = "\<lparr>closure = c, rest = p # ps\<rparr>"
  have ok: "io_ok (env i)" using Cons.prems(2) by force
  have us: "\<forall>ev \<in> set (os i). user_event ev" using Cons.prems(3) by force
  note fr = user_fold_frame [OF us Cons.prems(4), of "store u" "[]"]
  obtain u1 where a0: "fold step (os i) \<lparr>ui = u, tasks = []\<rparr> = \<lparr>ui = u1, tasks = []\<rparr>"
    using fr by (cases "fold step (os i) \<lparr>ui = u, tasks = []\<rparr>") simp
  have a1: "fold step (os i) \<lparr>ui = u, tasks = [?t]\<rparr> = \<lparr>ui = u1, tasks = [?t]\<rparr>"
    using user_fold_tasks [OF us Cons.prems(4), of "[?t]"] a0 by simp
  have st: "store u1 = store u" and sv: "isSaving u1"
    using fr a0 by simp_all
  have "i < i + length (p # ps)" by simp
  then have "[i..<i + length (p # ps)] = i # [Suc i..<i + length (p # ps)]"
    by (rule upt_conv_Cons)
  then have up: "[i..<i + length (p # ps)] = i # [Suc i..<Suc i + length ps]"
    by simp
  obtain r' where it: "save_item (env i) p (store u) = (None, r')"
    using save_item_ok [OF ok] by blast
  have lhs: "fold step (interleaved os env i (length (p # ps))) \<lparr>ui = u, tasks = [?t]\<rparr> =
      fold step (interleaved os env (Suc i) (length ps))
        (save_progress 0 (env i) \<lparr>ui = u1, tasks = [?t]\<rparr>)"
    by (simp only: list.size interleaved.simps fold_append fold_Cons o_apply a1 step.simps
        add_Suc_right add_0_right One_nat_def)
  have rhs: "fold step (concat (map os [i..<i + length (p # ps)])) \<lparr>ui = u, tasks = []\<rparr> =
      fold step (concat (map os [Suc i..<Suc i + length ps])) \<lparr>ui = u1, tasks = []\<rparr>"
    by (simp only: up list.map concat.simps fold_append o_apply a0)
  show ?case
  proof (cases "ps = []")
    case True
    have sp: "save_progress 0 (env i) \<lparr>ui = u1, tasks = [?t]\<rparr> =
        \<lparr>ui = onSave_finish c (u1\<lparr>store := r'\<rparr>), tasks = []\<rparr>"
      by (simp add: save_progress_def st it drop_task_def True)
    show ?thesis
      by (simp only: lhs rhs sp) (simp add: True it)
  next
    case False
    have sp: "save_progress 0 (env i) \<lparr>ui = u1, tasks = [?t]\<rparr> =
        \<lparr>ui = u1\<lparr>store := r'\<rparr>, tasks = [\<lparr>closure = c, rest = ps\<rparr>]\<rparr>"
      by (simp add: save_progress_def st it False)
    have oks: "\<forall>j < length ps. io_ok (env (Suc i + j))" using Cons.prems(2) by force
    have uss: "\<forall>j < length ps. \<forall>ev \<in> set (os (Suc i + j)). user_event ev"
      using Cons.prems(3) by force
    have sv': "isSaving (u1\<lparr>store := r'\<rparr>)" using sv by simp
    have all: "\<forall>ev \<in> set (concat (map os [Suc i..<Suc i + length ps])). user_event ev"
    proof
      fix ev assume "ev \<in> set (concat (map os [Suc i..<Suc i + length ps]))"
      then obtain k where "k \<in> set [Suc i..<Suc i + length ps]" and e: "ev \<in> set (os k)"
        by (auto simp del: upt_Suc)
      then have k: "Suc i \<le> k" "k < Suc i + length ps" "ev \<in> set (os k)"
        by (simp_all del: upt_Suc)
      then have "k - Suc i < length ps" "Suc i + (k - Suc i) = k" by simp_all
      then show "user_event ev" using uss k(3) by metis
    qed
    note ih = Cons.IH [OF False oks uss sv']
    have sl: "save_loop env i (p # ps) (store u) = save_loop env (Suc i) ps r'"
      by (simp add: it)
    show ?thesis
      by (simp only: lhs rhs sp ih sl user_fold_store [OF all sv]) simp
  qed
qed

text \<open>Every event appends to the log of revocations.\<close>

lemma step_revoked: "\<exists>rs. revoked (ui (step ev y)) = revoked (ui y) @ rs"
proof (cases ev)
  case ClickSave
  then show ?thesis by (simp add: onSave_begin_def)
next
  case (SaveProgress k e)
  then show ?thesis
    by (auto simp: save_progress_def onSave_finish_def revokeAll_def onSave_abort_def
        split: list.splits prod.splits option.splits)
next
  case (Select files)
  then show ?thesis by (simp add: onSelect_others)
next
  case (Remove idx)
  then show ?thesis by (simp add: removeOne_def)
next
  case (GestureEnd idx nl)
  then show ?thesis by (auto simp: onChange_def)
next
  case (SetSnap b)
  then show ?thesis by simp
qed

lemma fold_step_revoked: "\<exists>rs. revoked (ui (fold step evs y)) = revoked (ui y) @ rs"
proof (induction evs arbitrary: y)
  case Nil
  then show ?case by simp
next
  case (Cons ev evs)
  obtain r1 where r1: "revoked (ui (step ev y)) = revoked (ui y) @ r1"
    using step_revoked by blast
  obtain r2 where r2: "revoked (ui (fold step evs (step ev y))) = revoked (ui (step ev y)) @ r2"
    using Cons.IH by blast
  have "revoked (ui (fold step (ev # evs) y)) = revoked (ui y) @ (r1 @ r2)"
    by (simp add: r1 r2)
  then show ?case by blast
qed

lemma concat_no_events: "concat (map no_events js) = []"
  by (simp add: no_events_def)

text \<open>The save as the page runs it: the events of the user take effect as they would by
  themselves, and the save writes what it closed over at the click.\<close>

lemma save_run_eq:
  assumes "canSave s"
    and "\<forall>i < length (pending s). io_ok (env i)"
    and "\<forall>i < length (pending s). \<forall>ev \<in> set (os i). user_event ev"
  shows "save_run os env s =
     \<lparr>ui = onSave_finish (pending s)
        ((others_alone os s)\<lparr>store := snd (save_loop env 0 (pending s) (store s))\<rparr>),
      tasks = []\<rparr>"
proof -
  have ne: "pending s \<noteq> []" using assms(1) by (simp add: canSave_def)
  have b: "step ClickSave \<lparr>ui = s, tasks = []\<rparr> =
      \<lparr>ui = s\<lparr>isSaving := True\<rparr>, tasks = [\<lparr>closure = pending s, rest = pending s\<rparr>]\<rparr>"
    using assms(1) by (simp add: button_disabled_def onSave_begin_def canSave_def)
  have oks: "\<forall>j < length (pending s). io_ok (env (0 + j))" using assms(2) by simp
  have uss: "\<forall>j < length (pending s). \<forall>ev \<in> set (os (0 + j)). user_event ev"
    using assms(3) by simp
  have sv: "isSaving (s\<lparr>isSaving := True\<rparr>)" by simp
  have "save_run os env s =
      fold step (interleaved os env 0 (length (pending s)))
        \<lparr>ui = s\<lparr>isSaving := True\<rparr>, tasks = [\<lparr>closure = pending s, rest = pending s\<rparr>]\<rparr>"
    by (simp only: save_run_def run_def fold_Cons o_apply b)
  also have "\<dots> = \<lparr>ui = onSave_finish (pending s)
        ((ui (fold step (concat (map os [0..<0 + length (pending s)]))
              \<lparr>ui = s\<lparr>isSaving := True\<rparr>, tasks = []\<rparr>))
           \<lparr>store := snd (save_loop env 0 (pending s) (store (s\<lparr>isSaving := True\<rparr>)))\<rparr>),
      tasks = []\<rparr>"
    by (rule progress_interleaved [OF ne oks uss sv])
  also have "\<dots> = \<lparr>ui = onSave_finish (pending s)
        ((others_alone os s)\<lparr>store := snd (save_loop env 0 (pending s) (store s))\<rparr>),
      tasks = []\<rparr>"
    by (simp add: others_alone_def run_def)
  finally show ?thesis .
qed

lemma save_run_fields:
  assumes "canSave s"
    and "\<forall>i < length (pending s). io_ok (env i)"
    and "\<forall>i < length (pending s). \<forall>ev \<in> set (os i). user_event ev"
  shows "tasks (save_run os env s) = []"
    and "\<not> isSaving (ui (save_run os env s))"
    and "pending (ui (save_run os env s)) = []"
    and "calls (store (ui (save_run os env s))) =
      calls (store s) @ concat (map (calls_at env) (enumerate 0 (pending s)))"
    and "docs (store (ui (save_run os env s))) =
      docs (store s) @ map (doc_at env) (enumerate 0 (pending s))"
    and "revoked (ui (save_run os env s)) =
      revoked (others_alone os s) @ map previewUrl (pending s)"
    and "created (ui (save_run os env s)) = created (others_alone os s)"
    and "snap (ui (save_run os env s)) = snap (others_alone os s)"
proof -
  have "\<forall>j < length (pending s). io_ok (env (0 + j))" using assms(2) by simp
  note sl = save_loop_ok [OF this]
  note eq = save_run_eq [OF assms]
  show "tasks (save_run os env s) = []"
    and "\<not> isSaving (ui (save_run os env s))"
    and "pending (ui (save_run os env s)) = []"
    and "calls (store (ui (save_run os env s))) =
      calls (store s) @ concat (map (calls_at env) (enumerate 0 (pending s)))"
    and "docs (store (ui (save_run os env s))) =
      docs (store s) @ map (doc_at env) (enumerate 0 (pending s))"
    and "revoked (ui (save_run os env s)) =
      revoked (others_alone os s) @ map previewUrl (pending s)"
    and "created (ui (save_run os env s)) = created (others_alone os s)"
    and "snap (ui (save_run os env s)) = snap (others_alone os s)"
    by (simp_all add: eq sl onSave_finish_def revokeAll_def)
qed

lemma others_alone_none: "others_alone no_events s = s\<lparr>isSaving := True\<rparr>"
  by (simp add: others_alone_def run_def concat_no_events del: upt_Suc)

lemma save_run_alone:
  assumes "canSave s" and "\<forall>i < length (pending s). io_ok (env i)"
  shows "save_run no_events env s = \<lparr>ui = snd (onSave env s), tasks = []\<rparr>"
proof -
  have ne: "pending s \<noteq> []" using assms(1) by (simp add: canSave_def)
  have us: "\<forall>i < length (pending s). \<forall>ev \<in> set (no_events i). user_event ev"
    by (simp add: no_events_def)
  have "\<forall>j < length (pending s). io_ok (env (0 + j))" using assms(2) by simp
  note sl = save_loop_ok [OF this]
  show ?thesis
    by (simp add: save_run_eq [OF assms us] others_alone_none onSave_ok [OF ne assms(2)] sl
        onSave_finish_def revokeAll_def)
qed

lemma count_list_ge1:
  assumes "p \<in> set ps"
  shows "1 \<le> count_list (rs @ map f ps) (f p)"
proof -
  have "f p \<in> set (map f ps)" using assms by simp
  then have "count_list (map f ps) (f p) \<noteq> 0" by (simp only: count_list_0_iff not_not)
  then show ?thesis by simp
qed

subsection \<open>Two examples of a save among other events\<close>

lemma two_pending_eq:
  "two_pending = \<lparr>pending =
      [\<lparr>pfile = file_a, previewUrl = 0, px = Fin 0, py = Fin 0, pw = 260, ph = 173, caption = None\<rparr>,
       \<lparr>pfile = file_b, previewUrl = 2, px = Fin 16, py = Fin 16, pw = 260, ph = 160, caption = None\<rparr>],
     isSaving = False, snap = True, created = 4, revoked = [], store = init_remote\<rparr>"
  by (simp add: two_pending_def onSelect_def createObjectURL_def readImageDims_def init_state_def
      baseW_def file_a_def file_b_def baseH_a baseH_b)

lemma two_pending_ok:
  "canSave two_pending"
  "\<forall>i < length (pending two_pending). io_ok (env_ok i)"
  "distinct (map previewUrl (pending two_pending))"
  "\<forall>p \<in> set (pending two_pending). previewUrl p \<notin> set (revoked two_pending)"
  by (simp_all add: two_pending_eq canSave_def io_ok_def env_ok_def)

lemma select_two: "step (Select [file_a, file_b]) init_sys = \<lparr>ui = two_pending, tasks = []\<rparr>"
  by (simp add: init_sys_def two_pending_def init_state_def)

text \<open>The first item is removed while the save waits for its upload.\<close>

lemma remove_first_user:
  "\<forall>i < length (pending two_pending). \<forall>ev \<in> set (remove_first i). user_event ev"
  by (simp add: remove_first_def user_event_def)

lemma remove_first_run:
  "run [Select [file_a, file_b], ClickSave, Remove 0, SaveProgress 0 (env_ok 0),
      SaveProgress 0 (env_ok 1)] init_sys = save_run remove_first env_ok two_pending"
proof -
  have l: "length (pending two_pending) = Suc (Suc 0)" by (simp add: two_pending_eq)
  have i: "interleaved remove_first env_ok 0 (Suc (Suc 0)) =
      [Remove 0, SaveProgress 0 (env_ok 0), SaveProgress 0 (env_ok (Suc 0))]"
    by (simp add: remove_first_def)
  have "run [Select [file_a, file_b], ClickSave, Remove 0, SaveProgress 0 (env_ok 0),
      SaveProgress 0 (env_ok 1)] init_sys =
    run [ClickSave, Remove 0, SaveProgress 0 (env_ok 0), SaveProgress 0 (env_ok 1)]
      \<lparr>ui = two_pending, tasks = []\<rparr>"
    by (simp only: run_def fold_Cons o_apply select_two)
  also have "\<dots> = save_run remove_first env_ok two_pending"
    by (simp only: save_run_def l i One_nat_def)
  finally show ?thesis .
qed

lemma remove_first_alone:
  "revoked (others_alone remove_first two_pending) = [0]"
  "created (others_alone remove_first two_pending) = 4"
  by (simp_all add: others_alone_def run_def remove_first_def removeOne_def two_pending_eq)

lemma select_third_user:
  "\<forall>i < length (pending two_pending). \<forall>ev \<in> set (select_third i). user_event ev"
  by (simp add: select_third_def user_event_def)

lemma select_third_run:
  "run [Select [file_a, file_b], ClickSave, Select [file_c], SaveProgress 0 (env_ok 0),
      SaveProgress 0 (env_ok 1)] init_sys = save_run select_third env_ok two_pending"
proof -
  have l: "length (pending two_pending) = Suc (Suc 0)" by (simp add: two_pending_eq)
  have i: "interleaved select_third env_ok 0 (Suc (Suc 0)) =
      [Select [file_c], SaveProgress 0 (env_ok 0), SaveProgress 0 (env_ok (Suc 0))]"
    by (simp add: select_third_def)
  have "run [Select [file_a, file_b], ClickSave, Select [file_c], SaveProgress 0 (env_ok 0),
      SaveProgress 0 (env_ok 1)] init_sys =
    run [ClickSave, Select [file_c], SaveProgress 0 (env_ok 0), SaveProgress 0 (env_ok 1)]
      \<lparr>ui = two_pending, tasks = []\<rparr>"
    by (simp only: run_def fold_Cons o_apply select_two)
  also have "\<dots> = save_run select_third env_ok two_pending"
    by (simp only: save_run_def l i One_nat_def)
  finally show ?thesis .
qed

lemma select_third_alone:
  "revoked (others_alone select_third two_pending) = []"
  "created (others_alone select_third two_pending) = 6"
  "map previewUrl (pending (others_alone select_third two_pending)) = [0, 2, 4]"
  by (simp_all add: others_alone_def run_def select_third_def onSelect_others onSelect_pending
      two_pending_eq)

lemma select_third_before:
  "ui (run [Select [file_a, file_b], ClickSave, Select [file_c]] init_sys) =
     others_alone select_third two_pending"
proof -
  have b: "step ClickSave \<lparr>ui = two_pending, tasks = []\<rparr> =
      \<lparr>ui = two_pending\<lparr>isSaving := True\<rparr>,
       tasks = [\<lparr>closure = pending two_pending, rest = pending two_pending\<rparr>]\<rparr>"
    using two_pending_ok(1) by (simp add: button_disabled_def onSave_begin_def canSave_def)
  have c: "concat (map select_third [0..<length (pending two_pending)]) = [Select [file_c]]"
    by (simp add: two_pending_eq select_third_def)
  have "run [Select [file_a, file_b], ClickSave, Select [file_c]] init_sys =
      step (Select [file_c]) \<lparr>ui = two_pending\<lparr>isSaving := True\<rparr>,
       tasks = [\<lparr>closure = pending two_pending, rest = pending two_pending\<rparr>]\<rparr>"
    by (simp only: run_def fold_Cons fold_Nil o_apply id_apply select_two b)
  then show ?thesis
    by (simp add: others_alone_def c run_def)
qed

text \<open>
  C1, as stated, fails: the page handles other events between the calls of a running save.
  With every call succeeding, the first of two items is removed while the save waits for
  its upload: the removal revokes its preview URL, and the save, which goes on with the
  list it closed over, writes its document and revokes the URL again. A third file selected
  during the save gets a preview URL, 4, and an entry in the list; the save empties the
  list and revokes the two URLs it closed over, and URL 4 is never revoked.
\<close>

theorem save_among_events_revokes:
  "io_ok (env_ok 0) \<and> io_ok (env_ok 1) \<and>
   pending (ui (run [Select [file_a, file_b]] init_sys)) \<noteq> [] \<and>
   map previewUrl (pending (ui (run [Select [file_a, file_b]] init_sys))) = [0, 2] \<and>
   revoked (ui (run [Select [file_a, file_b], ClickSave, Remove 0, SaveProgress 0 (env_ok 0),
     SaveProgress 0 (env_ok 1)] init_sys)) = [0, 0, 2] \<and>
   count_list (revoked (ui (run [Select [file_a, file_b], ClickSave, Remove 0,
     SaveProgress 0 (env_ok 0), SaveProgress 0 (env_ok 1)] init_sys))) 0 = 2 \<and>
   map fileName (docs (store (ui (run [Select [file_a, file_b], ClickSave, Remove 0,
     SaveProgress 0 (env_ok 0), SaveProgress 0 (env_ok 1)] init_sys)))) = [''a.png'', ''b.jpg''] \<and>
   map previewUrl (pending (ui (run [Select [file_a, file_b], ClickSave, Select [file_c]]
     init_sys))) = [0, 2, 4] \<and>
   tasks (run [Select [file_a, file_b], ClickSave, Select [file_c], SaveProgress 0 (env_ok 0),
     SaveProgress 0 (env_ok 1)] init_sys) = [] \<and>
   pending (ui (run [Select [file_a, file_b], ClickSave, Select [file_c],
     SaveProgress 0 (env_ok 0), SaveProgress 0 (env_ok 1)] init_sys)) = [] \<and>
   revoked (ui (run [Select [file_a, file_b], ClickSave, Select [file_c],
     SaveProgress 0 (env_ok 0), SaveProgress 0 (env_ok 1)] init_sys)) = [0, 2]"
proof -
  have s: "run [Select [file_a, file_b]] init_sys = \<lparr>ui = two_pending, tasks = []\<rparr>"
    by (simp only: run_def fold_Cons fold_Nil o_apply id_apply select_two)
  have p: "map previewUrl (pending two_pending) = [0, 2]" "pending two_pending \<noteq> []"
    by (simp_all add: two_pending_eq)
  note r = save_run_fields [OF two_pending_ok(1,2) remove_first_user]
  note t = save_run_fields [OF two_pending_ok(1,2) select_third_user]
  have d: "map fileName (docs (store (ui (save_run remove_first env_ok two_pending)))) =
      [''a.png'', ''b.jpg'']"
    by (simp only: r(5)) (simp add: two_pending_eq init_remote_def doc_at_def item_doc_def
        file_a_def file_b_def)
  have r6: "revoked (ui (save_run remove_first env_ok two_pending)) = [0, 0, 2]"
    by (simp add: r(6) remove_first_alone p)
  have t6: "revoked (ui (save_run select_third env_ok two_pending)) = [0, 2]"
    by (simp add: t(6) select_third_alone p)
  show ?thesis
    by (simp only: s remove_first_run select_third_run select_third_before)
      (simp add: p select_third_alone d r6 t6 t(1) t(3) io_ok_def env_ok_def)
qed

text \<open>
  C1, amended. A click on the enabled save button with \<open>N\<close> items pending, every call of
  the save succeeding, and any events of the user handled between the calls. The save runs
  to its end: no save is running afterwards and the save flag is off. The calls are made
  item by item in the order of the list at the click (upload, URL, document; then the next
  item), and one document per item is appended in that order, each made of the resolved
  URL, the file name, the layout the item had at the click and its caption. The other
  events take effect as they would by themselves, except that the pending list is empty
  afterwards, whatever they added to it; the save then revokes the preview URL of each of
  the \<open>N\<close> items, so each has been revoked at least once. When no other event is handled
  during the save, the run is \<^verbatim>\<open>onSave\<close> run to its end, each of the \<open>N\<close> preview URLs has
  been revoked exactly once, and no preview URL of a pending item is left. The preview URLs
  are taken to be distinct and not yet revoked, as they are in every state the page reaches
  (\<open>run_urls\<close>).
\<close>

theorem onSave_all_succeed:
  assumes "canSave s"
    and "\<forall>i < length (pending s). io_ok (env i)"
    and "\<forall>i < length (pending s). \<forall>ev \<in> set (os i). user_event ev"
    and "distinct (map previewUrl (pending s))"
    and "\<forall>p \<in> set (pending s). previewUrl p \<notin> set (revoked s)"
  shows "tasks (save_run os env s) = [] \<and>
    \<not> isSaving (ui (save_run os env s)) \<and>
    calls (store (ui (save_run os env s))) =
      calls (store s) @ concat (map (calls_at env) (enumerate 0 (pending s))) \<and>
    docs (store (ui (save_run os env s))) =
      docs (store s) @
      map (\<lambda>(i, p). \<lparr>url = the (download_url (env i)), fileName = fname (pfile p),
             ix = px p, iy = py p, iw = pw p, ih = ph p, icaption = caption p,
             createdAt = ServerTimestamp\<rparr>) (enumerate 0 (pending s)) \<and>
    length (docs (store (ui (save_run os env s)))) =
      length (docs (store s)) + length (pending s) \<and>
    ui (save_run os env s) =
      (others_alone os s)\<lparr>pending := [], isSaving := False,
         revoked := revoked (others_alone os s) @ map previewUrl (pending s),
         store := store (ui (save_run os env s))\<rparr> \<and>
    pending (ui (save_run os env s)) = [] \<and>
    revoked (ui (save_run os env s)) =
      revoked (others_alone os s) @ map previewUrl (pending s) \<and>
    (\<exists>rs. revoked (others_alone os s) = revoked s @ rs) \<and>
    (\<forall>p \<in> set (pending s). 1 \<le> count_list (revoked (ui (save_run os env s))) (previewUrl p)) \<and>
    save_run no_events env s = \<lparr>ui = snd (onSave env s), tasks = []\<rparr> \<and>
    fst (onSave env s) = None \<and>
    revoked (ui (save_run no_events env s)) = revoked s @ map previewUrl (pending s) \<and>
    (\<forall>p \<in> set (pending s).
       count_list (revoked (ui (save_run no_events env s))) (previewUrl p) = 1) \<and>
    live_previews (ui (save_run no_events env s)) = []"
proof -
  have ne: "pending s \<noteq> []" using assms(1) by (simp add: canSave_def)
  note f = save_run_fields [OF assms(1,2,3)]
  note eq = save_run_eq [OF assms(1,2,3)]
  have d: "doc_at env = (\<lambda>(i, p). \<lparr>url = the (download_url (env i)), fileName = fname (pfile p),
             ix = px p, iy = py p, iw = pw p, ih = ph p, icaption = caption p,
             createdAt = ServerTimestamp\<rparr>)"
    by (auto simp: doc_at_def item_doc_def fun_eq_iff)
  have docs: "docs (store (ui (save_run os env s))) =
      docs (store s) @
      map (\<lambda>(i, p). \<lparr>url = the (download_url (env i)), fileName = fname (pfile p),
             ix = px p, iy = py p, iw = pw p, ih = ph p, icaption = caption p,
             createdAt = ServerTimestamp\<rparr>) (enumerate 0 (pending s))"
    by (simp only: f(5) d)
  have len: "length (docs (store (ui (save_run os env s)))) =
      length (docs (store s)) + length (pending s)"
    by (simp add: f(5))
  have whole: "ui (save_run os env s) =
      (others_alone os s)\<lparr>pending := [], isSaving := False,
         revoked := revoked (others_alone os s) @ map previewUrl (pending s),
         store := store (ui (save_run os env s))\<rparr>"
    by (simp add: eq onSave_finish_def revokeAll_def)
  have pre: "\<exists>rs. revoked (others_alone os s) = revoked s @ rs"
    using fold_step_revoked [of "concat (map os [0..<length (pending s)])"
        "\<lparr>ui = s\<lparr>isSaving := True\<rparr>, tasks = []\<rparr>"]
    by (simp add: others_alone_def run_def)
  have ge: "\<forall>p \<in> set (pending s).
      1 \<le> count_list (revoked (ui (save_run os env s))) (previewUrl p)"
    unfolding f(6) using count_list_ge1 [where f = previewUrl] by blast
  note al = save_run_alone [OF assms(1,2)]
  note ok = onSave_ok [OF ne assms(2)]
  have fs: "fst (onSave env s) = None" by (simp add: ok)
  have rv: "revoked (ui (save_run no_events env s)) = revoked s @ map previewUrl (pending s)"
    by (simp add: al ok)
  have once: "\<forall>p \<in> set (pending s).
      count_list (revoked (ui (save_run no_events env s))) (previewUrl p) = 1"
    unfolding rv using count_list_once [OF assms(4,5)] by blast
  have lp: "live_previews (ui (save_run no_events env s)) = []"
    by (simp add: al ok live_previews_def)
  show ?thesis
    by (intro conjI; (rule f(1) f(2) f(3) f(4) f(6) docs len whole pre ge al fs rv once lp))
qed

theorem onSave_all_succeed_witness:
  "canSave two_pending \<and>
   io_ok (env_ok 0) \<and> io_ok (env_ok 1) \<and>
   user_event (Remove 0) \<and>
   map previewUrl (pending two_pending) = [0, 2] \<and>
   revoked two_pending = [] \<and>
   tasks (save_run remove_first env_ok two_pending) = [] \<and>
   \<not> isSaving (ui (save_run remove_first env_ok two_pending)) \<and>
   length (docs (store (ui (save_run remove_first env_ok two_pending)))) = 2 \<and>
   pending (ui (save_run remove_first env_ok two_pending)) = [] \<and>
   revoked (ui (save_run remove_first env_ok two_pending)) = [0, 0, 2] \<and>
   fst (onSave env_ok two_pending) = None \<and>
   revoked (ui (save_run no_events env_ok two_pending)) = [0, 2] \<and>
   live_previews (ui (save_run no_events env_ok two_pending)) = []"
proof -
  have ok: "io_ok (env_ok 0)" "io_ok (env_ok 1)"
    by (simp_all add: io_ok_def env_ok_def)
  have u: "user_event (Remove 0)" by (simp add: user_event_def)
  have p: "map previewUrl (pending two_pending) = [0, 2]" "revoked two_pending = []"
    "length (pending two_pending) = 2" "docs (store two_pending) = []"
    by (simp_all add: two_pending_eq init_remote_def)
  note t = onSave_all_succeed [OF two_pending_ok(1,2) remove_first_user two_pending_ok(3,4)]
  from t have a: "tasks (save_run remove_first env_ok two_pending) = [] \<and>
      \<not> isSaving (ui (save_run remove_first env_ok two_pending)) \<and>
      length (docs (store (ui (save_run remove_first env_ok two_pending)))) =
        length (docs (store two_pending)) + length (pending two_pending) \<and>
      pending (ui (save_run remove_first env_ok two_pending)) = [] \<and>
      revoked (ui (save_run remove_first env_ok two_pending)) =
        revoked (others_alone remove_first two_pending) @ map previewUrl (pending two_pending) \<and>
      fst (onSave env_ok two_pending) = None \<and>
      revoked (ui (save_run no_events env_ok two_pending)) =
        revoked two_pending @ map previewUrl (pending two_pending) \<and>
      live_previews (ui (save_run no_events env_ok two_pending)) = []"
    by blast
  show ?thesis
    using a two_pending_ok(1) ok u by (simp add: p remove_first_alone)
qed

end
